theory Spec2Isabelle
  imports Complex_Main "HOL-Library.Multiset" "HOL-Library.AList"
begin

section \<open>Hybrid retrieval engine: graph index\<close>

text \<open>
  The development embeds \<^verbatim>\<open>graph/graph_search.py\<close>, \<^verbatim>\<open>search/vector_search.py\<close> and
  \<^verbatim>\<open>search/hybrid_search.py\<close>. Python integers are \<open>int\<close>. Python floats are idealised
  as \<open>real\<close>: rounding, overflow and NaN are not represented, so every statement about a
  score is a statement about the exact value of the expression the code evaluates.
  A dictionary with fixed keys is a record whose field \<open>x_k\<close> is the key \<open>k\<close>; a raised
  exception is the \<open>Inl\<close> branch of a sum.
\<close>

datatype py_error = ValueError | TypeError | ZeroDivisionError

subsection \<open>Edges and the adjacency dictionary\<close>

text \<open>
  An element of \<^verbatim>\<open>EDGES\<close>: \<^verbatim>\<open>source\<close> and \<^verbatim>\<open>target\<close> are read with \<^verbatim>\<open>e[...]\<close>, \<^verbatim>\<open>type\<close>
  and \<^verbatim>\<open>weight\<close> with \<^verbatim>\<open>e.get\<close>, so the latter two may be absent (\<open>None\<close>).
\<close>

record edge =
  e_source :: int
  e_target :: int
  e_type :: "string option"
  e_weight :: "real option"

text \<open>An element of a neighbour list: \<^verbatim>\<open>{"target": .., "type": .., "weight": ..}\<close>.\<close>

record adj_entry =
  a_target :: int
  a_type :: string
  a_weight :: real

text \<open>
  \<^verbatim>\<open>ADJ\<close> is a Python dict from node id to neighbour list. It is an association list with
  one pair per key, in key insertion order.
\<close>

type_synonym adj = "(int \<times> adj_entry list) list"

text \<open>\<^verbatim>\<open>ADJ.setdefault(k, []).append(v)\<close>\<close>

fun setdefault_append :: "adj \<Rightarrow> int \<Rightarrow> adj_entry \<Rightarrow> adj" where
  "setdefault_append [] k v = [(k, [v])]"
| "setdefault_append ((k', vs) # rest) k v =
     (if k' = k then (k', vs @ [v]) # rest else (k', vs) # setdefault_append rest k v)"

text \<open>The body of the loop \<^verbatim>\<open>for e in EDGES\<close> (graph_search.py, lines 29-46).\<close>

definition add_edge :: "adj \<Rightarrow> edge \<Rightarrow> adj" where
  "add_edge ADJ e =
     (let src = e_source e;
          tgt = e_target e;
          rel = (case e_type e of None \<Rightarrow> ''related_to'' | Some t \<Rightarrow> t);
          wt = (case e_weight e of None \<Rightarrow> 1 | Some w \<Rightarrow> w);
          ADJ1 = setdefault_append ADJ src \<lparr>a_target = tgt, a_type = rel, a_weight = wt\<rparr>
      in setdefault_append ADJ1 tgt \<lparr>a_target = src, a_type = rel, a_weight = wt\<rparr>)"

text \<open>
  The module-level construction of \<^verbatim>\<open>ADJ\<close> from \<^verbatim>\<open>EDGES\<close>. No statement of the loop can
  raise on an edge that has both endpoints, so the \<^verbatim>\<open>except\<close> branch (which resets
  \<^verbatim>\<open>ADJ\<close> to \<^verbatim>\<open>{}\<close>) is not reachable from a value of type \<open>edge list\<close>. The loop never
  looks at the node list.
\<close>

definition build_ADJ :: "edge list \<Rightarrow> adj" where
  "build_ADJ EDGES = foldl add_edge [] EDGES"

text \<open>\<^verbatim>\<open>ADJ.get(node, [])\<close>\<close>

definition adj_get :: "adj \<Rightarrow> int \<Rightarrow> adj_entry list" where
  "adj_get ADJ node = (case map_of ADJ node of None \<Rightarrow> [] | Some es \<Rightarrow> es)"

subsection \<open>Breadth-first traversal\<close>

text \<open>
  A queue element is the tuple \<^verbatim>\<open>(node, depth, edge_type, weight)\<close>; the root carries
  \<^verbatim>\<open>None\<close> for the last two components. A result is the dict
  \<^verbatim>\<open>{"id", "hop", "edge", "weight"}\<close> built from such a tuple.
\<close>

type_synonym qitem = "int \<times> int \<times> string option \<times> real option"

record bfs_result =
  r_id :: int
  r_hop :: int
  r_edge :: "string option"
  r_weight :: "real option"

text \<open>
  The test \<^verbatim>\<open>allowed_types and e["type"] not in allowed_types\<close>. The parameter is
  \<^verbatim>\<open>None\<close> or a list of strings; \<^verbatim>\<open>None\<close> and the empty list are both falsy.
\<close>

definition filtered_out :: "string list option \<Rightarrow> adj_entry \<Rightarrow> bool" where
  "filtered_out allowed_types e =
     (case allowed_types of
        None \<Rightarrow> False
      | Some ts \<Rightarrow> ts \<noteq> [] \<and> a_type e \<notin> set ts)"

text \<open>
  The inner loop \<^verbatim>\<open>for e in ADJ.get(node, [])\<close> (lines 95-103), threading the two
  objects it mutates: the visited set and the queue.
\<close>

fun expand :: "string list option \<Rightarrow> int \<Rightarrow> adj_entry list \<Rightarrow> int set \<times> qitem list
    \<Rightarrow> int set \<times> qitem list" where
  "expand allowed_types depth [] (visited, queue) = (visited, queue)"
| "expand allowed_types depth (e # es) (visited, queue) =
     (if filtered_out allowed_types e then expand allowed_types depth es (visited, queue)
      else if a_target e \<notin> visited then
        expand allowed_types depth es
          (insert (a_target e) visited,
           queue @ [(a_target e, depth + 1, Some (a_type e), Some (a_weight e))])
      else expand allowed_types depth es (visited, queue))"

text \<open>Every id that occurs as a neighbour in \<^verbatim>\<open>ADJ\<close>; used only to bound the loop.\<close>

definition adj_targets :: "adj \<Rightarrow> int set" where
  "adj_targets ADJ = set (concat (map (\<lambda>(k, es). map a_target es) ADJ))"

text \<open>The loop \<^verbatim>\<open>while queue\<close> (lines 79-103).\<close>

function bfs_loop :: "adj \<Rightarrow> int \<Rightarrow> string list option \<Rightarrow> qitem list \<Rightarrow> int set
    \<Rightarrow> bfs_result list \<Rightarrow> bfs_result list" where
  "bfs_loop ADJ max_depth allowed_types [] visited results = results"
| "bfs_loop ADJ max_depth allowed_types ((node, depth, edge_type, weight) # queue) visited results =
     (let results' =
            (if depth > 0
             then results @ [\<lparr>r_id = node, r_hop = depth, r_edge = edge_type, r_weight = weight\<rparr>]
             else results)
      in if depth = max_depth then bfs_loop ADJ max_depth allowed_types queue visited results'
         else (case expand allowed_types depth (adj_get ADJ node) (visited, queue) of
                 (visited', queue') \<Rightarrow>
                   bfs_loop ADJ max_depth allowed_types queue' visited' results'))"
  by pat_completeness auto

lemma adj_get_targets: "a_target ` set (adj_get ADJ node) \<subseteq> adj_targets ADJ"
proof (cases "map_of ADJ node")
  case None
  then show ?thesis by (simp add: adj_get_def)
next
  case (Some es)
  then have "(node, es) \<in> set ADJ" by (rule map_of_SomeD)
  then show ?thesis using Some by (force simp: adj_get_def adj_targets_def)
qed

lemma expand_measure:
  assumes "finite U" "a_target ` set es \<subseteq> U"
    and "expand allowed_types depth es (visited, queue) = (visited', queue')"
  shows "card (U - visited') + length queue' \<le> card (U - visited) + length queue"
  using assms
proof (induction es arbitrary: visited queue)
  case Nil
  then show ?case by simp
next
  case (Cons e es)
  show ?case
  proof (cases "\<not> filtered_out allowed_types e \<and> a_target e \<notin> visited")
    case False
    then have "expand allowed_types depth es (visited, queue) = (visited', queue')"
      using Cons.prems(3) by (auto split: if_splits)
    moreover have "a_target ` set es \<subseteq> U" using Cons.prems(2) by simp
    ultimately show ?thesis using Cons.IH [of visited queue] Cons.prems(1) by blast
  next
    case True
    let ?v = "insert (a_target e) visited"
    let ?q = "queue @ [(a_target e, depth + 1, Some (a_type e), Some (a_weight e))]"
    from True have "expand allowed_types depth es (?v, ?q) = (visited', queue')"
      using Cons.prems(3) by simp
    moreover have "a_target ` set es \<subseteq> U" using Cons.prems(2) by simp
    ultimately have le: "card (U - visited') + length queue' \<le> card (U - ?v) + length ?q"
      using Cons.IH [of ?v ?q] Cons.prems(1) by blast
    have "a_target e \<in> U - visited" using True Cons.prems(2) by auto
    moreover have "U - ?v = (U - visited) - {a_target e}" by auto
    ultimately have "card (U - ?v) < card (U - visited)"
      using Cons.prems(1) by (metis card_Diff1_less finite_Diff)
    then show ?thesis using le by simp
  qed
qed

termination bfs_loop
proof (relation "measure (\<lambda>(ADJ, max_depth, allowed_types, queue, visited, results).
          card (adj_targets ADJ - visited) + length queue)", goal_cases)
  case 1
  then show ?case by simp
next
  case 2
  then show ?case by simp
next
  case (3 ADJ max_depth allowed_types node depth edge_type weight queue visited results r v q)
  have "finite (adj_targets ADJ)" unfolding adj_targets_def by (rule finite_set)
  moreover have "expand allowed_types depth (adj_get ADJ node) (visited, queue) = (v, q)"
    using 3 by simp
  ultimately have "card (adj_targets ADJ - v) + length q
      \<le> card (adj_targets ADJ - visited) + length queue"
    using expand_measure adj_get_targets by blast
  then show ?case by simp
qed

text \<open>The function \<^verbatim>\<open>bfs\<close> (lines 54-105).\<close>

definition bfs :: "adj \<Rightarrow> int \<Rightarrow> int \<Rightarrow> string list option \<Rightarrow> bfs_result list" where
  "bfs ADJ start_id max_depth allowed_types =
     (if start_id \<notin> fst ` set ADJ then []
      else bfs_loop ADJ max_depth allowed_types [(start_id, 0, None, None)] {start_id} [])"

subsection \<open>Closeness score\<close>

text \<open>
  The function \<^verbatim>\<open>graph_closeness\<close> (lines 110-132). The key \<^verbatim>\<open>"weight"\<close> is present in
  every result record, so \<^verbatim>\<open>r.get("weight", 1.0)\<close> reads it; \<^verbatim>\<open>1.0 / (1 + hop)\<close>
  raises when \<^verbatim>\<open>hop\<close> is \<open>-1\<close>, and the product raises when the weight is \<^verbatim>\<open>None\<close>.
\<close>

fun graph_closeness :: "int \<Rightarrow> bfs_result list \<Rightarrow> py_error + real" where
  "graph_closeness node_id [] = Inr 0"
| "graph_closeness node_id (r # rs) =
     (if r_id r = node_id then
        (let hop = r_hop r;
             wt = r_weight r
         in if 1 + hop = 0 then Inl ZeroDivisionError
            else (let base = 1 / real_of_int (1 + hop)
                  in case wt of None \<Rightarrow> Inl TypeError | Some w \<Rightarrow> Inr (base * w)))
      else graph_closeness node_id rs)"

section \<open>Vector index\<close>

text \<open>A JSON value stored in a node's metadata.\<close>

datatype jval = JNone | JStr string | JNum real

record node =
  n_id :: int
  n_name :: string
  n_text :: string
  n_metadata :: "(string \<times> jval) list"
  n_embedding :: "real list"

text \<open>The module globals of \<^verbatim>\<open>vector_search.py\<close>.\<close>

record vindex =
  NODES :: "node list"
  EMB_ARRAY :: "real list list"
  NODE_IDS :: "int list"

text \<open>
  \<^verbatim>\<open>np.array(rows)\<close> on a list of rows. NumPy (1.24 and later) raises \<^verbatim>\<open>ValueError\<close> when
  the rows have different lengths; otherwise the result is the matrix of the rows.
\<close>

definition np_array :: "real list list \<Rightarrow> py_error + real list list" where
  "np_array rows =
     (if \<forall>r \<in> set rows. \<forall>r' \<in> set rows. length r = length r' then Inr rows
      else Inl ValueError)"

text \<open>
  The module-level \<^verbatim>\<open>try\<close>/\<open>except\<close> of \<^verbatim>\<open>vector_search.py\<close> (lines 9-29), applied to the
  decoded contents of the node file: any exception is printed and replaced by the empty
  index.
\<close>

definition load_nodes :: "node list \<Rightarrow> vindex" where
  "load_nodes nodes =
     (case np_array (map n_embedding nodes) of
        Inr M \<Rightarrow> \<lparr>NODES = nodes, EMB_ARRAY = M, NODE_IDS = map n_id nodes\<rparr>
      | Inl e \<Rightarrow> \<lparr>NODES = [], EMB_ARRAY = [], NODE_IDS = []\<rparr>)"

text \<open>\<^verbatim>\<open>np.linalg.norm\<close> of a row and the product of a row with the query vector.\<close>

definition vnorm :: "real list \<Rightarrow> real" where
  "vnorm xs = sqrt (sum_list (map (\<lambda>x. x * x) xs))"

definition dot :: "real list \<Rightarrow> real list \<Rightarrow> real" where
  "dot xs ys = sum_list (map (\<lambda>(x, y). x * y) (zip xs ys))"

text \<open>\<^verbatim>\<open>matrix @ vector\<close>: NumPy raises \<^verbatim>\<open>ValueError\<close> when a row is not as long as the vector.\<close>

definition matvec :: "real list list \<Rightarrow> real list \<Rightarrow> py_error + real list" where
  "matvec matrix vector =
     (if \<forall>row \<in> set matrix. length row = length vector
      then Inr (map (\<lambda>row. dot row vector) matrix)
      else Inl ValueError)"

text \<open>
  The value of \<^verbatim>\<open>denom\<close> after \<^verbatim>\<open>np.where(denom == 0, 1e-9, denom)\<close> (lines 46-47).
\<close>

definition denom :: "real list list \<Rightarrow> real list \<Rightarrow> real list" where
  "denom matrix vector =
     (let matrix_norms = map vnorm matrix;
          vector_norm = vnorm vector;
          denom0 = map (\<lambda>m. m * vector_norm) matrix_norms
      in map (\<lambda>d. if d = 0 then 1 / 10 ^ 9 else d) denom0)"

text \<open>The function \<^verbatim>\<open>cosine_vec_matrix\<close> (lines 35-49).\<close>

definition cosine_vec_matrix :: "real list list \<Rightarrow> real list \<Rightarrow> py_error + real list" where
  "cosine_vec_matrix matrix vector =
     (case matvec matrix vector of
        Inl e \<Rightarrow> Inl e
      | Inr prods \<Rightarrow> Inr (map (\<lambda>(p, d). p / d) (zip prods (denom matrix vector))))"

text \<open>\<^verbatim>\<open>n.get("metadata", {}).get(key) == value\<close>; an absent metadata dict is the empty list.\<close>

definition metadata_matches :: "string \<times> jval \<Rightarrow> node \<Rightarrow> bool" where
  "metadata_matches metadata_filter n =
     (case metadata_filter of
        (key, value) \<Rightarrow>
          (case map_of (n_metadata n) key of None \<Rightarrow> JNone | Some v \<Rightarrow> v) = value)"

text \<open>The slice \<^verbatim>\<open>xs[:k]\<close>: a negative \<open>k\<close> drops the last \<open>-k\<close> elements.\<close>

definition py_take :: "int \<Rightarrow> 'a list \<Rightarrow> 'a list" where
  "py_take k xs = (if 0 \<le> k then take (nat k) xs else take (length xs - nat (- k)) xs)"

record vec_result =
  v_id :: int
  v_name :: string
  v_vector_score :: real

text \<open>
  The embedding model and NumPy's \<^verbatim>\<open>argsort\<close> are not code of the repository; they are
  parameters. The contract of \<^verbatim>\<open>argsort\<close>: the result lists every index once and reads
  the scores in ascending order. The order of equal scores is left open (NumPy's default
  sort is not stable).
\<close>

definition is_argsort :: "(real list \<Rightarrow> nat list) \<Rightarrow> bool" where
  "is_argsort argsort =
     (\<forall>xs. mset (argsort xs) = mset [0..<length xs] \<and> sorted (map (\<lambda>i. xs ! i) (argsort xs)))"

text \<open>The function \<^verbatim>\<open>search_vector\<close> (lines 55-104).\<close>

definition search_vector :: "(string \<Rightarrow> real list) \<Rightarrow> (real list \<Rightarrow> nat list) \<Rightarrow> vindex
    \<Rightarrow> string \<Rightarrow> int \<Rightarrow> (string \<times> jval) option \<Rightarrow> py_error + vec_result list" where
  "search_vector embed_text argsort ix query_text top_k metadata_filter =
     (if length (NODES ix) = 0 then Inr []
      else
        (let q_embed = embed_text query_text;
             filtered =
               (case metadata_filter of
                  None \<Rightarrow> Some (Inr (NODES ix, EMB_ARRAY ix))
                | Some mf \<Rightarrow>
                    (let filtered_nodes = filter (metadata_matches mf) (NODES ix)
                     in if filtered_nodes = [] then None
                        else Some (case np_array (map n_embedding filtered_nodes) of
                                     Inl e \<Rightarrow> Inl e
                                   | Inr M \<Rightarrow> Inr (filtered_nodes, M))))
         in case filtered of
              None \<Rightarrow> Inr []
            | Some (Inl e) \<Rightarrow> Inl e
            | Some (Inr (filtered_nodes, filtered_embs)) \<Rightarrow>
                (case cosine_vec_matrix filtered_embs q_embed of
                   Inl e \<Rightarrow> Inl e
                 | Inr sims \<Rightarrow>
                     (let top_k' = min top_k (int (length filtered_nodes));
                          top_indices = py_take top_k' (rev (argsort sims))
                      in Inr (map (\<lambda>idx.
                                \<lparr>v_id = n_id (filtered_nodes ! idx),
                                 v_name = n_name (filtered_nodes ! idx),
                                 v_vector_score = sims ! idx\<rparr>) top_indices)))))"

section \<open>Hybrid fusion\<close>

record hybrid_result =
  h_id :: int
  h_name :: "string option"
  h_text :: "string option"
  h_vector_score :: real
  h_graph_score :: real
  h_final_score :: real
  h_hop :: "int option"

text \<open>
  The dict comprehension \<^verbatim>\<open>{r["id"]: r["vector_score"] for r in vector_results}\<close>: a later
  pair with a key already present replaces the value and keeps the key's position.
\<close>

definition dict_of :: "('k \<times> 'v) list \<Rightarrow> ('k \<times> 'v) list" where
  "dict_of kvs = foldl (\<lambda>d (k, v). AList.update k v d) [] kvs"

text \<open>
  The dict comprehension \<^verbatim>\<open>{node_id: graph_closeness(node_id, visited) for node_id in ...}\<close>
  over distinct keys; the first exception ends it.
\<close>

fun graph_scores_of :: "int list \<Rightarrow> bfs_result list \<Rightarrow> py_error + (int \<times> real) list" where
  "graph_scores_of [] visited = Inr []"
| "graph_scores_of (node_id # ks) visited =
     (case graph_closeness node_id visited of
        Inl e \<Rightarrow> Inl e
      | Inr g \<Rightarrow> (case graph_scores_of ks visited of
                   Inl e \<Rightarrow> Inl e
                 | Inr d \<Rightarrow> Inr ((node_id, g) # d)))"

text \<open>
  \<^verbatim>\<open>list.sort(key=..., reverse=True)\<close>: descending and stable (elements with equal keys
  keep their order); CPython reverses, sorts and reverses again.
\<close>

definition py_sort_desc :: "('a \<Rightarrow> real) \<Rightarrow> 'a list \<Rightarrow> 'a list" where
  "py_sort_desc key xs = rev (sort_key key (rev xs))"

text \<open>The body of the loop \<^verbatim>\<open>for node_id in vec_scores.keys()\<close> (hybrid_search.py, lines 71-91).\<close>

definition merge_one :: "node list \<Rightarrow> bfs_result list \<Rightarrow> (int \<times> real) list \<Rightarrow> real \<Rightarrow> real
    \<Rightarrow> int \<times> real \<Rightarrow> hybrid_result" where
  "merge_one NODES_h visited graph_scores vector_weight graph_weight kv =
     (case kv of
        (node_id, v) \<Rightarrow>
          (let g = (case map_of graph_scores node_id of None \<Rightarrow> 0 | Some x \<Rightarrow> x);
               final_score = vector_weight * v + graph_weight * g;
               node_name = map_option n_name (find (\<lambda>n. n_id n = node_id) NODES_h);
               node_text = map_option n_text (find (\<lambda>n. n_id n = node_id) NODES_h);
               hop = map_option r_hop (find (\<lambda>item. r_id item = node_id) visited)
           in \<lparr>h_id = node_id, h_name = node_name, h_text = node_text,
               h_vector_score = v, h_graph_score = g, h_final_score = final_score,
               h_hop = hop\<rparr>))"

text \<open>
  The function \<^verbatim>\<open>hybrid_search\<close> (lines 28-96). \<open>NODES_h\<close> is the module's own copy of
  the node list, \<open>ix\<close> and \<open>ADJ\<close> are the globals of the two modules it calls.
\<close>

definition hybrid_search :: "(string \<Rightarrow> real list) \<Rightarrow> (real list \<Rightarrow> nat list) \<Rightarrow> vindex
    \<Rightarrow> node list \<Rightarrow> adj \<Rightarrow> string \<Rightarrow> int \<Rightarrow> int option \<Rightarrow> int \<Rightarrow> real
    \<Rightarrow> py_error + hybrid_result list" where
  "hybrid_search embed_text argsort ix NODES_h ADJ query_text top_k focus_id bfs_depth alpha =
     (let vector_weight = alpha;
          graph_weight = 1 - alpha
      in case search_vector embed_text argsort ix query_text top_k None of
           Inl e \<Rightarrow> Inl e
         | Inr vector_results \<Rightarrow>
             if vector_results = [] then Inr []
             else
               (let vec_scores = dict_of (map (\<lambda>r. (v_id r, v_vector_score r)) vector_results);
                    focus_id' = (case focus_id of
                                   None \<Rightarrow> v_id (hd vector_results)
                                 | Some f \<Rightarrow> f);
                    visited = bfs ADJ focus_id' bfs_depth None
                in case graph_scores_of (map fst vec_scores) visited of
                     Inl e \<Rightarrow> Inl e
                   | Inr graph_scores \<Rightarrow>
                       (let merged_results =
                              map (merge_one NODES_h visited graph_scores
                                     vector_weight graph_weight) vec_scores
                        in Inr (py_take top_k (py_sort_desc h_final_score merged_results)))))"

section \<open>Notions used in the statements and proofs\<close>

subsection \<open>Traversal\<close>

text \<open>
  \<open>pushed a V es\<close> lists the entries of \<open>es\<close> that the inner loop enqueues when it starts
  with the visited set \<open>V\<close>; \<open>enqueued d e\<close> is the queue tuple made from entry \<open>e\<close> by a node
  at depth \<open>d\<close>, and \<open>result_of\<close> the result record made from a queue tuple.

  \<open>edges_read\<close> lists, with the depth of the node they were read from, the adjacency entries
  that pass the type filter in the order in which the traversal reads them: the root first,
  then the nodes in result order (the order in which they leave the queue), each one's
  neighbour list in stored order; a node at depth \<open>max_depth\<close> is not expanded and
  contributes nothing. \<open>made_from r (h, e)\<close> says that result \<open>r\<close> carries the target, type
  and weight of entry \<open>e\<close> and the hop \<open>h + 1\<close>.
\<close>

fun pushed :: "string list option \<Rightarrow> int set \<Rightarrow> adj_entry list \<Rightarrow> adj_entry list" where
  "pushed a V [] = []"
| "pushed a V (e # es) =
     (if \<not> filtered_out a e \<and> a_target e \<notin> V then e # pushed a (insert (a_target e) V) es
      else pushed a V es)"

definition enqueued :: "int \<Rightarrow> adj_entry \<Rightarrow> qitem" where
  "enqueued d e = (a_target e, d + 1, Some (a_type e), Some (a_weight e))"

definition result_of :: "qitem \<Rightarrow> bfs_result" where
  "result_of q = (case q of (n, d, t, w) \<Rightarrow> \<lparr>r_id = n, r_hop = d, r_edge = t, r_weight = w\<rparr>)"

definition read_at :: "adj \<Rightarrow> int \<Rightarrow> string list option \<Rightarrow> int \<times> int \<Rightarrow> (int \<times> adj_entry) list" where
  "read_at ADJ md a uh =
     (case uh of (u, h) \<Rightarrow>
        if h = md then []
        else map (\<lambda>e. (h, e)) (filter (\<lambda>e. \<not> filtered_out a e) (adj_get ADJ u)))"

definition edges_read :: "adj \<Rightarrow> int \<Rightarrow> int \<Rightarrow> string list option \<Rightarrow> bfs_result list
    \<Rightarrow> (int \<times> adj_entry) list" where
  "edges_read ADJ s md a R =
     concat (map (read_at ADJ md a) ((s, 0) # map (\<lambda>r. (r_id r, r_hop r)) R))"

definition made_from :: "bfs_result \<Rightarrow> int \<times> adj_entry \<Rightarrow> bool" where
  "made_from r he =
     (case he of (h, e) \<Rightarrow>
        r = \<lparr>r_id = a_target e, r_hop = h + 1, r_edge = Some (a_type e), r_weight = Some (a_weight e)\<rparr>)"

definition leads_to :: "int \<Rightarrow> int \<times> adj_entry \<Rightarrow> bool" where
  "leads_to v he = (a_target (snd he) = v)"

definition inv_ids :: "int \<Rightarrow> bfs_result list \<Rightarrow> bool" where
  "inv_ids s S = (distinct (map r_id S) \<and> s \<notin> r_id ` set S)"

definition inv_hops :: "int \<Rightarrow> bfs_result list \<Rightarrow> bool" where
  "inv_hops md S =
     ((\<forall>x\<in>set S. 1 \<le> r_hop x) \<and> (0 \<le> md \<longrightarrow> (\<forall>x\<in>set S. r_hop x \<le> md))
      \<and> sorted (map r_hop S))"

definition inv_front :: "qitem list \<Rightarrow> bfs_result list \<Rightarrow> bool" where
  "inv_front Q S = (\<forall>q\<in>set (take 1 Q). \<forall>x\<in>set S. r_hop x \<le> r_hop (result_of q) + 1)"

definition inv_closed :: "int \<Rightarrow> (int \<times> adj_entry) list \<Rightarrow> bfs_result list \<Rightarrow> bool" where
  "inv_closed s E S =
     (\<forall>he\<in>set E. a_target (snd he) = s
        \<or> (\<exists>x\<in>set S. r_id x = a_target (snd he) \<and> r_hop x \<le> fst he + 1))"

definition inv_first :: "(int \<times> adj_entry) list \<Rightarrow> bfs_result list \<Rightarrow> bool" where
  "inv_first E S = (\<forall>x\<in>set S. \<exists>he. find (leads_to (r_id x)) E = Some he \<and> made_from x he)"

definition bfs_inv :: "adj \<Rightarrow> int \<Rightarrow> string list option \<Rightarrow> int \<Rightarrow> qitem list \<Rightarrow> bfs_result list \<Rightarrow> bool" where
  "bfs_inv ADJ md a s Q R =
     (let S = R @ map result_of Q; E = edges_read ADJ s md a R in
        inv_ids s S \<and> inv_hops md S \<and> inv_front Q S \<and> inv_closed s E S \<and> inv_first E S)"

definition visited_of :: "int \<Rightarrow> qitem list \<Rightarrow> bfs_result list \<Rightarrow> int set" where
  "visited_of s Q R = insert s (r_id ` set (R @ map result_of Q))"

subsection \<open>Adjacency construction\<close>

text \<open>
  The values of the locals \<^verbatim>\<open>rel\<close> and \<^verbatim>\<open>wt\<close> for an edge (the stored value or the default),
  and the entries the loop body appends to the neighbour list of node \<open>k\<close> for one edge: the
  forward entry if \<open>k\<close> is its source, then the backward entry if \<open>k\<close> is its target.
\<close>

definition rel_of :: "edge \<Rightarrow> string" where
  "rel_of e = (case e_type e of None \<Rightarrow> ''related_to'' | Some t \<Rightarrow> t)"

definition wt_of :: "edge \<Rightarrow> real" where
  "wt_of e = (case e_weight e of None \<Rightarrow> 1 | Some w \<Rightarrow> w)"

definition entries_at :: "int \<Rightarrow> edge \<Rightarrow> adj_entry list" where
  "entries_at k e =
     (if e_source e = k then [\<lparr>a_target = e_target e, a_type = rel_of e, a_weight = wt_of e\<rparr>] else [])
     @ (if e_target e = k then [\<lparr>a_target = e_source e, a_type = rel_of e, a_weight = wt_of e\<rparr>] else [])"

subsection \<open>Walks\<close>

text \<open>
  A walk from node \<open>u\<close> is a list of adjacency entries, each one in the neighbour list of the
  node the walk has reached and each one passing the type filter; \<open>walk_end\<close> is the node
  where it ends.
\<close>

fun is_walk :: "adj \<Rightarrow> string list option \<Rightarrow> int \<Rightarrow> adj_entry list \<Rightarrow> bool" where
  "is_walk ADJ a u [] = True"
| "is_walk ADJ a u (e # es) =
     (e \<in> set (adj_get ADJ u) \<and> \<not> filtered_out a e \<and> is_walk ADJ a (a_target e) es)"

fun walk_end :: "int \<Rightarrow> adj_entry list \<Rightarrow> int" where
  "walk_end u [] = u"
| "walk_end u (e # es) = walk_end (a_target e) es"

subsection \<open>Cosine similarity\<close>


definition cosine :: "real list \<Rightarrow> real list \<Rightarrow> real" where
  "cosine row vector =
     dot row vector
       / (if vnorm row * vnorm vector = 0 then 1 / 10 ^ 9 else vnorm row * vnorm vector)"

subsection \<open>Index construction\<close>

text \<open>All embeddings of a node list have the same dimension.\<close>

definition uniform_dims :: "node list \<Rightarrow> bool" where
  "uniform_dims nodes =
     (\<forall>n\<in>set nodes. \<forall>n'\<in>set nodes. length (n_embedding n) = length (n_embedding n'))"

subsection \<open>Vector search\<close>

text \<open>
  The candidate pool of a search (all nodes, or those matching the metadata filter), the
  result entry of a candidate for a query embedding, and a reference implementation of the
  \<^verbatim>\<open>argsort\<close> contract used to instantiate the parameter.
\<close>

definition candidates :: "vindex \<Rightarrow> (string \<times> jval) option \<Rightarrow> node list" where
  "candidates ix metadata_filter =
     (case metadata_filter of
        None \<Rightarrow> NODES ix
      | Some mf \<Rightarrow> filter (metadata_matches mf) (NODES ix))"

definition scored :: "real list \<Rightarrow> node \<Rightarrow> vec_result" where
  "scored q n = \<lparr>v_id = n_id n, v_name = n_name n, v_vector_score = cosine (n_embedding n) q\<rparr>"

definition ref_argsort :: "real list \<Rightarrow> nat list" where
  "ref_argsort xs = sort_key (\<lambda>i. xs ! i) [0..<length xs]"

definition raw_results :: "(real list \<Rightarrow> nat list) \<Rightarrow> node list \<Rightarrow> real list \<Rightarrow> int \<Rightarrow> vec_result list" where
  "raw_results argsort cands q top_k =
     (let sims = map (\<lambda>n. cosine (n_embedding n) q) cands
      in map (\<lambda>idx. \<lparr>v_id = n_id (cands ! idx), v_name = n_name (cands ! idx),
                     v_vector_score = sims ! idx\<rparr>)
           (py_take (min top_k (int (length cands))) (rev (argsort sims))))"

text \<open>The full ranking of a candidate pool: every candidate's entry, best score first.\<close>

definition ranked :: "(real list \<Rightarrow> nat list) \<Rightarrow> node list \<Rightarrow> real list \<Rightarrow> vec_result list" where
  "ranked argsort cands q =
     map (\<lambda>i. scored q (cands ! i)) (rev (argsort (map (\<lambda>n. cosine (n_embedding n) q) cands)))"

subsection \<open>Fusion\<close>

text \<open>
  The closeness score as a number (\<open>0\<close> standing in where \<^verbatim>\<open>graph_closeness\<close> raises, which it
  does not on a traversal result), the anchor of the traversal, and the entry the merge loop
  builds for one vector result.
\<close>

definition closeness_of :: "int \<Rightarrow> bfs_result list \<Rightarrow> real" where
  "closeness_of node_id visited =
     (case graph_closeness node_id visited of Inr g \<Rightarrow> g | Inl e \<Rightarrow> 0)"

definition anchor :: "int option \<Rightarrow> vec_result list \<Rightarrow> int" where
  "anchor focus_id vector_results =
     (case focus_id of None \<Rightarrow> v_id (hd vector_results) | Some f \<Rightarrow> f)"

definition fused :: "node list \<Rightarrow> bfs_result list \<Rightarrow> real \<Rightarrow> vec_result \<Rightarrow> hybrid_result" where
  "fused NODES_h visited alpha r =
     \<lparr>h_id = v_id r,
      h_name = map_option n_name (find (\<lambda>n. n_id n = v_id r) NODES_h),
      h_text = map_option n_text (find (\<lambda>n. n_id n = v_id r) NODES_h),
      h_vector_score = v_vector_score r,
      h_graph_score = closeness_of (v_id r) visited,
      h_final_score = alpha * v_vector_score r + (1 - alpha) * closeness_of (v_id r) visited,
      h_hop = map_option r_hop (find (\<lambda>item. r_id item = v_id r) visited)\<rparr>"

subsection \<open>Example data\<close>

text \<open>A graph with three nodes, two relation types and one edge without a type.\<close>

definition ex_edges :: "edge list" where
  "ex_edges =
     [\<lparr>e_source = 1, e_target = 2, e_type = Some ''evolves_into'', e_weight = None\<rparr>,
      \<lparr>e_source = 2, e_target = 3, e_type = Some ''related_to'', e_weight = Some (1 / 2)\<rparr>,
      \<lparr>e_source = 1, e_target = 3, e_type = None, e_weight = Some 2\<rparr>]"


text \<open>The graph of the specification's example: edges 1-2 (weight 1) and 2-3 (weight 1/2).\<close>

definition spec_edges :: "edge list" where
  "spec_edges =
     [\<lparr>e_source = 1, e_target = 2, e_type = Some ''related_to'', e_weight = Some 1\<rparr>,
      \<lparr>e_source = 2, e_target = 3, e_type = Some ''related_to'', e_weight = Some (1 / 2)\<rparr>]"

text \<open>
  Three nodes with unit embeddings, an edge whose target is not among them, and a node list
  whose embeddings differ in length.
\<close>

definition ex_nodes :: "node list" where
  "ex_nodes =
     [\<lparr>n_id = 1, n_name = ''a'', n_text = ''ta'', n_metadata = [(''type1'', JStr ''fire'')],
       n_embedding = [1, 0]\<rparr>,
      \<lparr>n_id = 2, n_name = ''b'', n_text = ''tb'', n_metadata = [(''type1'', JStr ''water'')],
       n_embedding = [0, 1]\<rparr>,
      \<lparr>n_id = 3, n_name = ''c'', n_text = ''tc'', n_metadata = [(''type1'', JStr ''fire'')],
       n_embedding = [- 1, 0]\<rparr>]"

definition dangling_edge :: edge where
  "dangling_edge = \<lparr>e_source = 1, e_target = 99, e_type = None, e_weight = None\<rparr>"

definition ragged_nodes :: "node list" where
  "ragged_nodes =
     [\<lparr>n_id = 1, n_name = ''a'', n_text = ''ta'', n_metadata = [], n_embedding = [1, 0]\<rparr>,
      \<lparr>n_id = 2, n_name = ''b'', n_text = ''tb'', n_metadata = [], n_embedding = [1]\<rparr>]"

section \<open>Properties of the traversal\<close>

subsection \<open>The loop invariant\<close>

lemma expand_pushed:
  "expand a d es (V, Q) = (V \<union> a_target ` set (pushed a V es), Q @ map (enqueued d) (pushed a V es))"
  by (induction es arbitrary: V Q) (auto simp: enqueued_def)

lemma pushed_subset: "e \<in> set (pushed a V es) \<Longrightarrow> e \<in> set es \<and> \<not> filtered_out a e"
  by (induction es arbitrary: V) (auto split: if_splits)

lemma pushed_notin: "e \<in> set (pushed a V es) \<Longrightarrow> a_target e \<notin> V"
  by (induction es arbitrary: V) (auto split: if_splits)

lemma pushed_distinct: "distinct (map a_target (pushed a V es))"
  by (induction es arbitrary: V) (auto dest: pushed_notin)

lemma pushed_cover:
  "e \<in> set es \<Longrightarrow> \<not> filtered_out a e \<Longrightarrow> a_target e \<in> V \<or> a_target e \<in> a_target ` set (pushed a V es)"
proof (induction es arbitrary: V)
  case Nil
  then show ?case by simp
next
  case (Cons e0 es)
  show ?case
  proof (cases "e = e0")
    case True
    then show ?thesis using Cons.prems by auto
  next
    case False
    then have "e \<in> set es" using Cons.prems by simp
    then show ?thesis using Cons.IH [of V] Cons.IH [of "insert (a_target e0) V"] Cons.prems(2)
      by auto
  qed
qed

lemma pushed_first:
  "e \<in> set (pushed a V es) \<Longrightarrow>
   find (\<lambda>e'. a_target e' = a_target e) (filter (\<lambda>e. \<not> filtered_out a e) es) = Some e"
proof (induction es arbitrary: V)
  case Nil
  then show ?case by simp
next
  case (Cons e0 es)
  show ?case
  proof (cases "\<not> filtered_out a e0 \<and> a_target e0 \<notin> V")
    case True
    show ?thesis
    proof (cases "e = e0")
      case True
      then show ?thesis using \<open>\<not> filtered_out a e0 \<and> a_target e0 \<notin> V\<close> by simp
    next
      case False
      then have in': "e \<in> set (pushed a (insert (a_target e0) V) es)"
        using Cons.prems True by simp
      then have "a_target e \<noteq> a_target e0" using pushed_notin by fastforce
      then show ?thesis using Cons.IH [OF in'] True by simp
    qed
  next
    case False
    then have in': "e \<in> set (pushed a V es)" using Cons.prems by auto
    then have "a_target e \<notin> V" by (rule pushed_notin)
    then have "\<not> filtered_out a e0 \<Longrightarrow> a_target e0 \<noteq> a_target e" using False by auto
    then show ?thesis using Cons.IH [OF in'] by auto
  qed
qed

lemma find_append_None: "find P xs = None \<Longrightarrow> find P (xs @ ys) = find P ys"
  by (induction xs) (auto split: if_splits)

lemma find_append_Some: "find P xs = Some x \<Longrightarrow> find P (xs @ ys) = Some x"
  by (induction xs) (auto split: if_splits)

lemma find_SomeD: "find P xs = Some x \<Longrightarrow> x \<in> set xs \<and> P x"
  by (induction xs) (auto split: if_splits)

lemma find_None_iff': "find P xs = None \<longleftrightarrow> (\<forall>x\<in>set xs. \<not> P x)"
  by (induction xs) auto

lemma edges_read_snoc:
  "edges_read ADJ s md a (R @ [r]) = edges_read ADJ s md a R @ read_at ADJ md a (r_id r, r_hop r)"
  by (simp add: edges_read_def)

lemma result_of_enqueued: "made_from (result_of (enqueued h e)) (h, e)"
  by (simp add: made_from_def result_of_def enqueued_def)

lemma find_leads_to_map:
  "find (leads_to v) (map (Pair h) es) = map_option (Pair h) (find (\<lambda>e. a_target e = v) es)"
  by (induction es) (auto simp: leads_to_def)

lemma r_id_result_of_enqueued [simp]: "r_id (result_of (enqueued d e)) = a_target e"
  by (simp add: result_of_def enqueued_def)

lemma r_hop_result_of_enqueued [simp]: "r_hop (result_of (enqueued d e)) = d + 1"
  by (simp add: result_of_def enqueued_def)

lemma sorted_const: "\<forall>x\<in>set xs. f x = (c::int) \<Longrightarrow> sorted (map f xs)"
  by (induction xs) auto

lemma bfs_inv_stop:
  assumes inv: "bfs_inv ADJ md a s (q # Q) R" and d: "r_hop (result_of q) = md"
  shows "bfs_inv ADJ md a s Q (R @ [result_of q])"
proof -
  let ?S = "R @ map result_of (q # Q)"
  let ?E = "edges_read ADJ s md a R"
  have S: "(R @ [result_of q]) @ map result_of Q = ?S" by simp
  have E: "edges_read ADJ s md a (R @ [result_of q]) = ?E"
    using d by (simp add: edges_read_snoc read_at_def)
  from inv have ids: "inv_ids s ?S" and hops: "inv_hops md ?S" and front: "inv_front (q # Q) ?S"
    and closed: "inv_closed s ?E ?S" and first: "inv_first ?E ?S"
    by (simp_all add: bfs_inv_def Let_def)
  have "inv_front Q ?S"
    unfolding inv_front_def
  proof (intro ballI)
    fix q' x assume q': "q' \<in> set (take 1 Q)" and x: "x \<in> set ?S"
    from q' have "q' \<in> set Q" by (rule in_set_takeD)
    moreover have "sorted (map r_hop ?S)" using hops by (simp add: inv_hops_def)
    ultimately have "r_hop (result_of q) \<le> r_hop (result_of q')"
      by (auto simp: sorted_append)
    moreover have "r_hop x \<le> r_hop (result_of q) + 1"
      using front x by (auto simp: inv_front_def)
    ultimately show "r_hop x \<le> r_hop (result_of q') + 1" by simp
  qed
  then show ?thesis
    using ids hops closed first unfolding bfs_inv_def Let_def S E by simp
qed

lemma bfs_inv_go:
  assumes inv: "bfs_inv ADJ md a s (q # Q) R" and d: "r_hop (result_of q) \<noteq> md"
    and F: "F = pushed a (visited_of s (q # Q) R) (adj_get ADJ (r_id (result_of q)))"
  shows "bfs_inv ADJ md a s (Q @ map (enqueued (r_hop (result_of q))) F) (R @ [result_of q])"
proof -
  define d where "d = r_hop (result_of q)"
  define S where "S = R @ map result_of (q # Q)"
  define P where "P = map (\<lambda>e. result_of (enqueued d e)) F"
  define E where "E = edges_read ADJ s md a R"
  define ok where "ok = filter (\<lambda>e. \<not> filtered_out a e) (adj_get ADJ (r_id (result_of q)))"
  define V where "V = visited_of s (q # Q) R"
  have S': "(R @ [result_of q]) @ map result_of (Q @ map (enqueued d) F) = S @ P"
    by (simp add: S_def P_def comp_def)
  have E': "edges_read ADJ s md a (R @ [result_of q]) = E @ map (Pair d) ok"
    using d by (simp add: edges_read_snoc read_at_def E_def ok_def d_def)
  have V: "V = insert s (r_id ` set S)" by (simp add: visited_of_def V_def S_def)
  from inv have ids: "inv_ids s S" and hops: "inv_hops md S" and front: "inv_front (q # Q) S"
    and closed: "inv_closed s E S" and first: "inv_first E S"
    by (simp_all add: bfs_inv_def Let_def S_def E_def)
  have Fnew: "a_target e \<noteq> s \<and> a_target e \<notin> r_id ` set S" if "e \<in> set F" for e
  proof -
    have "a_target e \<notin> V" using that F pushed_notin unfolding V_def by blast
    then show ?thesis unfolding V by blast
  qed
  have qS: "result_of q \<in> set S" by (simp add: S_def)
  have srt: "sorted (map r_hop S)" and ge1: "\<forall>x\<in>set S. 1 \<le> r_hop x"
    and lemd: "0 \<le> md \<longrightarrow> (\<forall>x\<in>set S. r_hop x \<le> md)"
    using hops unfolding inv_hops_def by blast+
  have d1: "1 \<le> d" using ge1 qS unfolding d_def by blast
  have le: "r_hop x \<le> d + 1" if "x \<in> set S" for x
    using front that unfolding inv_front_def d_def by simp
  have dQ: "d \<le> r_hop (result_of q')" if "q' \<in> set Q" for q'
    using srt that unfolding S_def d_def by (auto simp: sorted_append)
  have setPD: "\<exists>e\<in>set F. x = result_of (enqueued d e)" if "x \<in> set P" for x
    using that unfolding P_def by auto
  have setPI: "result_of (enqueued d e) \<in> set P" if "e \<in> set F" for e
    using that unfolding P_def by auto
  have hopP: "r_hop y = d + 1" if "y \<in> set P" for y using setPD [OF that] by auto
  have idP: "r_id y \<in> a_target ` set F" if "y \<in> set P" for y using setPD [OF that] by auto
  have inSP: "x \<in> set (S @ P) \<longleftrightarrow> x \<in> set S \<or> x \<in> set P" for x by simp
  \<comment> \<open>identifiers\<close>
  have dS: "distinct (map r_id S)" and sS: "s \<notin> r_id ` set S"
    using ids unfolding inv_ids_def by blast+
  have mapP: "map r_id P = map a_target F" by (simp add: P_def comp_def)
  have dP: "distinct (map r_id P)" unfolding mapP F by (rule pushed_distinct)
  have newid: "x \<noteq> s \<and> x \<notin> r_id ` set S" if "x \<in> r_id ` set P" for x
  proof -
    from that obtain y where "y \<in> set P" "x = r_id y" by blast
    then obtain e where "e \<in> set F" "x = a_target e" using idP [of y] by auto
    then show ?thesis using Fnew [of e] by simp
  qed
  have "r_id ` set S \<inter> r_id ` set P = {}" using newid by blast
  then have "set (map r_id S) \<inter> set (map r_id P) = {}" by (simp only: set_map)
  then have "distinct (map r_id S @ map r_id P)"
    using dS dP by (simp only: distinct_append simp_thms)
  then have "distinct (map r_id (S @ P))" by (simp only: map_append)
  moreover have "s \<notin> r_id ` set S \<union> r_id ` set P" using sS newid by blast
  then have "s \<notin> r_id ` set (S @ P)" by (simp add: image_Un)
  ultimately have ids': "inv_ids s (S @ P)"
    unfolding inv_ids_def by (rule conjI)
  \<comment> \<open>hops\<close>
  have sP: "sorted (map r_hop P)" by (rule sorted_const [where c = "d + 1"]) (simp add: hopP)
  have dmd: "0 \<le> md \<longrightarrow> d + 1 \<le> md" using lemd qS d unfolding d_def by fastforce
  have "\<forall>x\<in>set (S @ P). 1 \<le> r_hop x"
    using ge1 hopP d1 unfolding inSP by fastforce
  moreover have "0 \<le> md \<longrightarrow> (\<forall>x\<in>set (S @ P). r_hop x \<le> md)"
    using lemd hopP dmd unfolding inSP by fastforce
  moreover have "\<forall>x\<in>set (map r_hop S). \<forall>y\<in>set (map r_hop P). x \<le> y"
    using le hopP unfolding set_map by fastforce
  then have "sorted (map r_hop (S @ P))"
    using srt sP by (simp add: sorted_append)
  ultimately have hops': "inv_hops md (S @ P)"
    unfolding inv_hops_def by blast
  \<comment> \<open>front of the queue\<close>
  have front': "inv_front (Q @ map (enqueued d) F) (S @ P)"
    unfolding inv_front_def
  proof (intro ballI)
    fix q' x assume q': "q' \<in> set (take 1 (Q @ map (enqueued d) F))" and x: "x \<in> set (S @ P)"
    from q' have "q' \<in> set (Q @ map (enqueued d) F)" by (rule in_set_takeD)
    then have "q' \<in> set Q \<or> (\<exists>e. q' = enqueued d e)" by auto
    then have "d \<le> r_hop (result_of q')"
    proof
      assume "q' \<in> set Q"
      then show ?thesis by (rule dQ)
    next
      assume "\<exists>e. q' = enqueued d e"
      then show ?thesis by auto
    qed
    moreover have "r_hop x \<le> d + 1" using x le hopP unfolding inSP by fastforce
    ultimately show "r_hop x \<le> r_hop (result_of q') + 1" by simp
  qed
  \<comment> \<open>every entry read so far leads to a visited node\<close>
  have closed': "inv_closed s (E @ map (Pair d) ok) (S @ P)"
    unfolding inv_closed_def
  proof (intro ballI)
    fix he assume he: "he \<in> set (E @ map (Pair d) ok)"
    show "a_target (snd he) = s
        \<or> (\<exists>x\<in>set (S @ P). r_id x = a_target (snd he) \<and> r_hop x \<le> fst he + 1)"
    proof (cases "he \<in> set E")
      case True
      have "a_target (snd he) = s
          \<or> (\<exists>x\<in>set S. r_id x = a_target (snd he) \<and> r_hop x \<le> fst he + 1)"
        using closed [unfolded inv_closed_def, rule_format, OF True] .
      then show ?thesis by auto
    next
      case False
      then obtain e where he': "he = (d, e)" and e: "e \<in> set ok" using he by auto
      have "e \<in> set (adj_get ADJ (r_id (result_of q)))" "\<not> filtered_out a e"
        using e by (simp_all add: ok_def)
      then have "a_target e \<in> V \<or> a_target e \<in> a_target ` set F"
        unfolding F V_def by (rule pushed_cover)
      then have "a_target e = s \<or> a_target e \<in> r_id ` set S \<or> a_target e \<in> a_target ` set F"
        unfolding V by simp
      then have "a_target e = s \<or> (\<exists>x\<in>set (S @ P). r_id x = a_target e \<and> r_hop x \<le> d + 1)"
      proof (elim disjE)
        assume "a_target e = s"
        then show ?thesis by simp
      next
        assume "a_target e \<in> r_id ` set S"
        then obtain x where x: "x \<in> set S" "r_id x = a_target e" by auto
        have "r_hop x \<le> d + 1" using x(1) by (rule le)
        moreover have "x \<in> set (S @ P)" using x(1) by simp
        ultimately show ?thesis using x(2) by (intro disjI2 bexI [of _ x] conjI)
      next
        assume "a_target e \<in> a_target ` set F"
        then obtain e' where e': "e' \<in> set F" "a_target e' = a_target e" by auto
        have "result_of (enqueued d e') \<in> set (S @ P)" using setPI [OF e'(1)] by simp
        moreover have "r_id (result_of (enqueued d e')) = a_target e" using e'(2) by simp
        moreover have "r_hop (result_of (enqueued d e')) \<le> d + 1" by simp
        ultimately show ?thesis by (intro disjI2 bexI [of _ "result_of (enqueued d e')"] conjI)
      qed
      then show ?thesis unfolding he' fst_conv snd_conv .
    qed
  qed
  \<comment> \<open>every node was made from the first entry that leads to it\<close>
  have first': "inv_first (E @ map (Pair d) ok) (S @ P)"
    unfolding inv_first_def
  proof (intro ballI)
    fix x assume x: "x \<in> set (S @ P)"
    show "\<exists>he. find (leads_to (r_id x)) (E @ map (Pair d) ok) = Some he \<and> made_from x he"
    proof (cases "x \<in> set S")
      case True
      obtain he where he: "find (leads_to (r_id x)) E = Some he" "made_from x he"
        using first [unfolded inv_first_def, rule_format, OF True] by auto
      have "find (leads_to (r_id x)) (E @ map (Pair d) ok) = Some he"
        using he(1) by (rule find_append_Some)
      then show ?thesis using he(2) by (intro exI [of _ he] conjI)
    next
      case False
      then have "x \<in> set P" using x by simp
      then obtain e where e: "e \<in> set F" "x = result_of (enqueued d e)" using setPD by auto
      have "\<not> leads_to (a_target e) he" if "he \<in> set E" for he
      proof
        assume "leads_to (a_target e) he"
        then have eq: "a_target (snd he) = a_target e" by (simp add: leads_to_def)
        have "a_target (snd he) = s
          \<or> (\<exists>x\<in>set S. r_id x = a_target (snd he) \<and> r_hop x \<le> fst he + 1)"
          using closed [unfolded inv_closed_def, rule_format, OF that] .
        then have "a_target e = s \<or> a_target e \<in> r_id ` set S"
          unfolding eq by (metis imageI)
        then show False using Fnew [OF e(1)] by simp
      qed
      then have "find (leads_to (a_target e)) E = None" by (simp add: find_None_iff')
      then have "find (leads_to (a_target e)) (E @ map (Pair d) ok)
          = map_option (Pair d) (find (\<lambda>e'. a_target e' = a_target e) ok)"
        by (simp add: find_append_None find_leads_to_map)
      also have "find (\<lambda>e'. a_target e' = a_target e) ok = Some e"
        using e(1) unfolding F ok_def by (rule pushed_first)
      finally have "find (leads_to (r_id x)) (E @ map (Pair d) ok) = Some (d, e)"
        by (simp add: e(2))
      moreover have "made_from x (d, e)" unfolding e(2) by (rule result_of_enqueued)
      ultimately show ?thesis by (intro exI [of _ "(d, e)"] conjI)
    qed
  qed
  have "bfs_inv ADJ md a s (Q @ map (enqueued d) F) (R @ [result_of q])"
    unfolding bfs_inv_def Let_def S' E' using ids' hops' front' closed' first' by (intro conjI)
  then show ?thesis unfolding d_def .
qed

lemma visited_of_stop: "visited_of s Q (R @ [result_of q]) = visited_of s (q # Q) R"
  by (auto simp: visited_of_def)

lemma visited_of_go:
  "visited_of s (Q @ map (enqueued d) F) (R @ [result_of q]) = visited_of s (q # Q) R \<union> a_target ` set F"
  by (simp add: visited_of_def image_Un image_image) blast

lemma bfs_loop_inv:
  "bfs_inv ADJ md a s Q R \<Longrightarrow> V = visited_of s Q R \<Longrightarrow> bfs_inv ADJ md a s [] (bfs_loop ADJ md a Q V R)"
proof (induction ADJ md a Q V R rule: bfs_loop.induct)
  case (1 ADJ md a V R)
  then show ?case by simp
next
  case (2 ADJ md a n d t w Q V R)
  let ?q = "(n, d, t, w)"
  have rq: "result_of ?q = \<lparr>r_id = n, r_hop = d, r_edge = t, r_weight = w\<rparr>"
    by (simp add: result_of_def)
  have "result_of ?q \<in> set (R @ map result_of (?q # Q))" by simp
  then have "1 \<le> r_hop (result_of ?q)"
    using "2.prems"(1) unfolding bfs_inv_def Let_def inv_hops_def by blast
  then have d: "0 < d" by (simp add: rq)
  show ?case
  proof (cases "d = md")
    case True
    have "bfs_inv ADJ md a s Q (R @ [result_of ?q])"
      using "2.prems"(1) True by (intro bfs_inv_stop) (simp_all add: result_of_def)
    moreover have "V = visited_of s Q (R @ [result_of ?q])"
      using "2.prems"(2) by (simp add: visited_of_stop)
    ultimately have "bfs_inv ADJ md a s [] (bfs_loop ADJ md a Q V (R @ [result_of ?q]))"
      using "2.IH"(1) [OF _ True] d by (simp add: result_of_def)
    then show ?thesis using True d by (simp add: result_of_def)
  next
    case False
    define F where "F = pushed a (visited_of s (?q # Q) R) (adj_get ADJ n)"
    have ex: "expand a d (adj_get ADJ n) (V, Q) = (V \<union> a_target ` set F, Q @ map (enqueued d) F)"
      using "2.prems"(2) by (simp add: expand_pushed F_def)
    have "bfs_inv ADJ md a s (Q @ map (enqueued (r_hop (result_of ?q))) F) (R @ [result_of ?q])"
      using "2.prems"(1) False by (intro bfs_inv_go) (simp_all add: result_of_def F_def)
    then have "bfs_inv ADJ md a s (Q @ map (enqueued d) F) (R @ [result_of ?q])" by (simp add: rq)
    moreover have "V \<union> a_target ` set F = visited_of s (Q @ map (enqueued d) F) (R @ [result_of ?q])"
      using "2.prems"(2) by (simp add: visited_of_go)
    ultimately have "bfs_inv ADJ md a s []
        (bfs_loop ADJ md a (Q @ map (enqueued d) F) (V \<union> a_target ` set F) (R @ [result_of ?q]))"
      using "2.IH"(2) [OF _ False ex [symmetric]] d by (simp add: result_of_def)
    then show ?thesis using False d ex by (simp add: result_of_def)
  qed
qed

lemma bfs_inv_empty:
  assumes "edges_read ADJ s md a [] = []"
  shows "bfs_inv ADJ md a s [] []"
  using assms
  by (simp add: bfs_inv_def inv_ids_def inv_hops_def inv_front_def inv_closed_def inv_first_def)

lemma bfs_inv_init:
  assumes md: "md \<noteq> 0" and F: "F = pushed a {s} (adj_get ADJ s)"
  shows "bfs_inv ADJ md a s (map (enqueued 0) F) []"
proof -
  define P where "P = map (\<lambda>e. result_of (enqueued 0 e)) F"
  define ok where "ok = filter (\<lambda>e. \<not> filtered_out a e) (adj_get ADJ s)"
  have S: "[] @ map result_of (map (enqueued 0) F) = P" by (simp add: P_def comp_def)
  have E: "edges_read ADJ s md a [] = map (Pair (0::int)) ok"
    using md by (simp add: edges_read_def read_at_def ok_def)
  have setPD: "\<exists>e\<in>set F. x = result_of (enqueued 0 e)" if "x \<in> set P" for x
    using that unfolding P_def by auto
  have setPI: "result_of (enqueued 0 e) \<in> set P" if "e \<in> set F" for e
    using that unfolding P_def by auto
  have hopP: "r_hop y = 1" if "y \<in> set P" for y using setPD [OF that] by auto
  have mapP: "map r_id P = map a_target F" by (simp add: P_def comp_def)
  have Fnew: "a_target e \<noteq> s" if "e \<in> set F" for e
    using pushed_notin [of e a "{s}" "adj_get ADJ s"] that unfolding F by simp
  have "distinct (map r_id P)" unfolding mapP F by (rule pushed_distinct)
  moreover have "s \<notin> r_id ` set P"
  proof
    assume "s \<in> r_id ` set P"
    then have "s \<in> set (map r_id P)" by simp
    then have "s \<in> a_target ` set F" unfolding mapP by simp
    then show False using Fnew by auto
  qed
  ultimately have ids: "inv_ids s P" unfolding inv_ids_def by (rule conjI)
  have "sorted (map r_hop P)" by (rule sorted_const [where c = 1]) (simp add: hopP)
  then have hops: "inv_hops md P" unfolding inv_hops_def using hopP md by auto
  have front: "inv_front (map (enqueued 0) F) P"
    unfolding inv_front_def using hopP by (auto dest!: in_set_takeD)
  have closed: "inv_closed s (map (Pair (0::int)) ok) P"
    unfolding inv_closed_def
  proof (intro ballI)
    fix he assume "he \<in> set (map (Pair (0::int)) ok)"
    then obtain e where he': "he = (0::int, e)" and e: "e \<in> set ok" by auto
    have "e \<in> set (adj_get ADJ s)" "\<not> filtered_out a e" using e by (simp_all add: ok_def)
    then have "a_target e \<in> {s} \<or> a_target e \<in> a_target ` set F"
      unfolding F by (rule pushed_cover)
    then have "a_target e = s \<or> (\<exists>x\<in>set P. r_id x = a_target e \<and> r_hop x \<le> 0 + 1)"
    proof (elim disjE)
      assume "a_target e \<in> {s}"
      then show ?thesis by simp
    next
      assume "a_target e \<in> a_target ` set F"
      then obtain e' where e': "e' \<in> set F" "a_target e' = a_target e" by auto
      have "result_of (enqueued 0 e') \<in> set P" using e'(1) by (rule setPI)
      moreover have "r_id (result_of (enqueued 0 e')) = a_target e" using e'(2) by simp
      moreover have "r_hop (result_of (enqueued 0 e')) \<le> 0 + 1" by simp
      ultimately show ?thesis by (intro disjI2 bexI [of _ "result_of (enqueued 0 e')"] conjI)
    qed
    then show "a_target (snd he) = s
        \<or> (\<exists>x\<in>set P. r_id x = a_target (snd he) \<and> r_hop x \<le> fst he + 1)"
      unfolding he' fst_conv snd_conv .
  qed
  have first: "inv_first (map (Pair (0::int)) ok) P"
    unfolding inv_first_def
  proof (intro ballI)
    fix x assume "x \<in> set P"
    then obtain e where e: "e \<in> set F" "x = result_of (enqueued 0 e)" using setPD by auto
    have "find (leads_to (a_target e)) (map (Pair (0::int)) ok)
        = map_option (Pair (0::int)) (find (\<lambda>e'. a_target e' = a_target e) ok)"
      by (rule find_leads_to_map)
    also have "find (\<lambda>e'. a_target e' = a_target e) ok = Some e"
      using e(1) unfolding F ok_def by (rule pushed_first)
    finally have "find (leads_to (r_id x)) (map (Pair (0::int)) ok) = Some (0::int, e)" by (simp add: e(2))
    moreover have "made_from x (0::int, e)" unfolding e(2) by (rule result_of_enqueued)
    ultimately show "\<exists>he. find (leads_to (r_id x)) (map (Pair (0::int)) ok) = Some he \<and> made_from x he"
      by (intro exI [of _ "(0::int, e)"] conjI)
  qed
  show ?thesis
    unfolding bfs_inv_def Let_def S E using ids hops front closed first by (intro conjI)
qed

lemma bfs_unfold:
  assumes "s \<in> fst ` set ADJ"
  shows "bfs ADJ s md a =
    (if md = 0 then []
     else bfs_loop ADJ md a (map (enqueued 0) (pushed a {s} (adj_get ADJ s)))
            ({s} \<union> a_target ` set (pushed a {s} (adj_get ADJ s))) [])"
  using assms by (simp add: bfs_def expand_pushed)

lemma bfs_inv_bfs: "bfs_inv ADJ md a s [] (bfs ADJ s md a)"
proof (cases "s \<in> fst ` set ADJ")
  case False
  then have "map_of ADJ s = None" by (simp add: map_of_eq_None_iff)
  then have "edges_read ADJ s md a [] = []"
    by (simp add: edges_read_def read_at_def adj_get_def)
  then have "bfs_inv ADJ md a s [] []" by (rule bfs_inv_empty)
  then show ?thesis using False by (simp add: bfs_def)
next
  case True
  show ?thesis
  proof (cases "md = 0")
    case md: True
    have "edges_read ADJ s md a [] = []" using md by (simp add: edges_read_def read_at_def)
    then have "bfs_inv ADJ md a s [] []" by (rule bfs_inv_empty)
    then show ?thesis using True md by (simp add: bfs_unfold)
  next
    case md: False
    define F where "F = pushed a {s} (adj_get ADJ s)"
    have "bfs_inv ADJ md a s (map (enqueued 0) F) []" using md F_def by (rule bfs_inv_init)
    moreover have "{s} \<union> a_target ` set F = visited_of s (map (enqueued 0) F) []"
      by (simp add: visited_of_def image_image)
    ultimately have "bfs_inv ADJ md a s [] (bfs_loop ADJ md a (map (enqueued 0) F) ({s} \<union> a_target ` set F) [])"
      by (rule bfs_loop_inv)
    then show ?thesis using True md by (simp add: bfs_unfold F_def)
  qed
qed

subsection \<open>Consequences for the result of \<^verbatim>\<open>bfs\<close>\<close>

lemma edges_read_mem:
  assumes "(h, e) \<in> set (edges_read ADJ s md a R)"
  shows "\<not> filtered_out a e \<and> h \<noteq> md
    \<and> (\<exists>u. (u, h) \<in> set ((s, 0) # map (\<lambda>r. (r_id r, r_hop r)) R) \<and> e \<in> set (adj_get ADJ u))"
proof -
  from assms obtain uh where uh: "uh \<in> set ((s, 0) # map (\<lambda>r. (r_id r, r_hop r)) R)"
    and he: "(h, e) \<in> set (read_at ADJ md a uh)"
    unfolding edges_read_def by auto
  obtain u h' where uh': "uh = (u, h')" by (cases uh)
  from he have "h' \<noteq> md" "h = h'" "e \<in> set (adj_get ADJ u)" "\<not> filtered_out a e"
    unfolding uh' read_at_def by (auto split: if_splits)
  then show ?thesis using uh unfolding uh' by blast
qed

lemma bfs_first:
  assumes "r \<in> set (bfs ADJ s md a)"
  shows "\<exists>he. find (leads_to (r_id r)) (edges_read ADJ s md a (bfs ADJ s md a)) = Some he
    \<and> made_from r he"
  using bfs_inv_bfs [of ADJ md a s] assms
  unfolding bfs_inv_def Let_def inv_first_def by simp

lemma bfs_ids: "distinct (map r_id (bfs ADJ s md a))" "s \<notin> r_id ` set (bfs ADJ s md a)"
  using bfs_inv_bfs [of ADJ md a s] unfolding bfs_inv_def Let_def inv_ids_def by simp_all

lemma bfs_hops:
  "r \<in> set (bfs ADJ s md a) \<Longrightarrow> 1 \<le> r_hop r"
  "r \<in> set (bfs ADJ s md a) \<Longrightarrow> 0 \<le> md \<Longrightarrow> r_hop r \<le> md"
  "sorted (map r_hop (bfs ADJ s md a))"
  using bfs_inv_bfs [of ADJ md a s] unfolding bfs_inv_def Let_def inv_hops_def by simp_all

lemma bfs_closed:
  assumes "he \<in> set (edges_read ADJ s md a (bfs ADJ s md a))"
  shows "a_target (snd he) = s
    \<or> (\<exists>x\<in>set (bfs ADJ s md a). r_id x = a_target (snd he) \<and> r_hop x \<le> fst he + 1)"
  using bfs_inv_bfs [of ADJ md a s] assms
  unfolding bfs_inv_def Let_def inv_closed_def by simp

lemma bfs_result_entry:
  assumes "r \<in> set (bfs ADJ s md a)"
  obtains h e where "find (leads_to (r_id r)) (edges_read ADJ s md a (bfs ADJ s md a)) = Some (h, e)"
    and "r = \<lparr>r_id = a_target e, r_hop = h + 1, r_edge = Some (a_type e), r_weight = Some (a_weight e)\<rparr>"
    and "\<not> filtered_out a e" and "h \<noteq> md"
proof -
  obtain he where he: "find (leads_to (r_id r)) (edges_read ADJ s md a (bfs ADJ s md a)) = Some he"
    "made_from r he" using bfs_first [OF assms] by auto
  obtain h e where [simp]: "he = (h, e)" by (cases he)
  have "(h, e) \<in> set (edges_read ADJ s md a (bfs ADJ s md a))" using find_SomeD [OF he(1)] by simp
  then have "\<not> filtered_out a e" "h \<noteq> md" using edges_read_mem by blast+
  then show ?thesis using that he by (simp add: made_from_def)
qed

lemma expand_empty_filter: "expand (Some []) d es (V, Q) = expand None d es (V, Q)"
  by (induction es arbitrary: V Q) (simp_all add: filtered_out_def)

lemma bfs_loop_empty_filter:
  "a = Some [] \<Longrightarrow> bfs_loop ADJ md a Q V R = bfs_loop ADJ md None Q V R"
proof (induction ADJ md a Q V R rule: bfs_loop.induct)
  case (1 ADJ md a V R)
  then show ?case by simp
next
  case (2 ADJ md a n d t w Q V R)
  let ?R = "if 0 < d then R @ [\<lparr>r_id = n, r_hop = d, r_edge = t, r_weight = w\<rparr>] else R"
  show ?case
  proof (cases "d = md")
    case True
    have "bfs_loop ADJ md a Q V ?R = bfs_loop ADJ md None Q V ?R"
      using "2.IH"(1) [OF refl True "2.prems"] .
    then show ?thesis unfolding True by simp
  next
    case False
    obtain V' Q' where ex: "expand a d (adj_get ADJ n) (V, Q) = (V', Q')" by fastforce
    then have ex': "expand None d (adj_get ADJ n) (V, Q) = (V', Q')"
      using "2.prems" expand_empty_filter by simp
    have "bfs_loop ADJ md a Q' V' ?R = bfs_loop ADJ md None Q' V' ?R"
      using "2.IH"(2) [OF refl False ex [symmetric] "2.prems"] .
    then show ?thesis using False ex ex' by (cases "0 < d") simp_all
  qed
qed


subsection \<open>The example graph\<close>

lemma build_ex_edges:
  "build_ADJ ex_edges =
     [(1, [\<lparr>a_target = 2, a_type = ''evolves_into'', a_weight = 1\<rparr>,
           \<lparr>a_target = 3, a_type = ''related_to'', a_weight = 2\<rparr>]),
      (2, [\<lparr>a_target = 1, a_type = ''evolves_into'', a_weight = 1\<rparr>,
           \<lparr>a_target = 3, a_type = ''related_to'', a_weight = 1 / 2\<rparr>]),
      (3, [\<lparr>a_target = 2, a_type = ''related_to'', a_weight = 1 / 2\<rparr>,
           \<lparr>a_target = 1, a_type = ''related_to'', a_weight = 2\<rparr>])]"
  by (simp add: build_ADJ_def ex_edges_def add_edge_def Let_def)

lemma bfs_ex_filtered:
  "bfs (build_ADJ ex_edges) 1 2 (Some [''evolves_into''])
     = [\<lparr>r_id = 2, r_hop = 1, r_edge = Some ''evolves_into'', r_weight = Some 1\<rparr>]"
  by (simp add: build_ex_edges bfs_def adj_get_def filtered_out_def)

lemma bfs_ex_all:
  "bfs (build_ADJ ex_edges) 1 2 None
     = [\<lparr>r_id = 2, r_hop = 1, r_edge = Some ''evolves_into'', r_weight = Some 1\<rparr>,
        \<lparr>r_id = 3, r_hop = 1, r_edge = Some ''related_to'', r_weight = Some 2\<rparr>]"
  by (simp add: build_ex_edges bfs_def adj_get_def filtered_out_def)


subsection \<open>Adjacency construction\<close>

lemma adj_get_setdefault_append:
  "adj_get (setdefault_append A k v) k' = adj_get A k' @ (if k' = k then [v] else [])"
  by (induction A k v rule: setdefault_append.induct) (auto simp: adj_get_def)

lemma keys_setdefault_append: "fst ` set (setdefault_append A k v) = insert k (fst ` set A)"
  by (induction A k v rule: setdefault_append.induct) auto

lemma adj_get_add_edge: "adj_get (add_edge A e) k = adj_get A k @ entries_at k e"
  by (simp add: add_edge_def Let_def adj_get_setdefault_append entries_at_def rel_of_def wt_of_def)

lemma keys_add_edge: "fst ` set (add_edge A e) = insert (e_target e) (insert (e_source e) (fst ` set A))"
  by (simp add: add_edge_def Let_def keys_setdefault_append)

lemma adj_get_foldl_add_edge:
  "adj_get (foldl add_edge A es) k = adj_get A k @ concat (map (entries_at k) es)"
  by (induction es arbitrary: A) (simp_all add: adj_get_add_edge)

lemma keys_foldl_add_edge:
  "fst ` set (foldl add_edge A es) = fst ` set A \<union> e_source ` set es \<union> e_target ` set es"
  by (induction es arbitrary: A) (auto simp: keys_add_edge)

lemma adj_get_build_ADJ: "adj_get (build_ADJ EDGES) k = concat (map (entries_at k) EDGES)"
  unfolding build_ADJ_def adj_get_foldl_add_edge by (simp add: adj_get_def)

lemma keys_build_ADJ: "fst ` set (build_ADJ EDGES) = e_source ` set EDGES \<union> e_target ` set EDGES"
  by (simp add: build_ADJ_def keys_foldl_add_edge)

subsection \<open>Closeness\<close>

lemma graph_closeness_find:
  "graph_closeness n rs =
     (case find (\<lambda>r. r_id r = n) rs of
        None \<Rightarrow> Inr 0
      | Some r \<Rightarrow>
          if 1 + r_hop r = 0 then Inl ZeroDivisionError
          else (case r_weight r of
                  None \<Rightarrow> Inl TypeError
                | Some w \<Rightarrow> Inr (1 / real_of_int (1 + r_hop r) * w)))"
  by (induction rs) (simp_all add: Let_def split: option.splits)

lemma find_distinct:
  "distinct (map f xs) \<Longrightarrow> x \<in> set xs \<Longrightarrow> find (\<lambda>y. f y = f x) xs = Some x"
  by (induction xs) (auto simp: image_iff)

lemma bfs_weight:
  assumes "r \<in> set (bfs ADJ s md a)"
  shows "\<exists>w. r_weight r = Some w"
  by (rule bfs_result_entry [OF assms]) simp

lemma build_spec_edges:
  "build_ADJ spec_edges =
     [(1, [\<lparr>a_target = 2, a_type = ''related_to'', a_weight = 1\<rparr>]),
      (2, [\<lparr>a_target = 1, a_type = ''related_to'', a_weight = 1\<rparr>,
           \<lparr>a_target = 3, a_type = ''related_to'', a_weight = 1 / 2\<rparr>]),
      (3, [\<lparr>a_target = 2, a_type = ''related_to'', a_weight = 1 / 2\<rparr>])]"
  by (simp add: build_ADJ_def spec_edges_def add_edge_def Let_def)

lemma bfs_spec_edges:
  "bfs (build_ADJ spec_edges) 1 2 None
     = [\<lparr>r_id = 2, r_hop = 1, r_edge = Some ''related_to'', r_weight = Some 1\<rparr>,
        \<lparr>r_id = 3, r_hop = 2, r_edge = Some ''related_to'', r_weight = Some (1 / 2)\<rparr>]"
  by (simp add: build_spec_edges bfs_def adj_get_def filtered_out_def)

subsection \<open>Hop distance\<close>

lemma walk_end_append: "walk_end u (p @ q) = walk_end (walk_end u p) q"
  by (induction p arbitrary: u) simp_all

lemma is_walk_append:
  "is_walk ADJ a u (p @ q) \<longleftrightarrow> is_walk ADJ a u p \<and> is_walk ADJ a (walk_end u p) q"
  by (induction p arbitrary: u) auto

lemma edges_read_intro:
  assumes "(u, h) \<in> set ((s, 0) # map (\<lambda>r. (r_id r, r_hop r)) R)" "h \<noteq> md"
    and "e \<in> set (adj_get ADJ u)" "\<not> filtered_out a e"
  shows "(h, e) \<in> set (edges_read ADJ s md a R)"
proof -
  have "(h, e) \<in> set (read_at ADJ md a (u, h))"
    using assms(2-4) by (simp add: read_at_def)
  then show ?thesis using assms(1) unfolding edges_read_def set_concat set_map by blast
qed

lemma bfs_reaches:
  assumes "is_walk ADJ a s p" "md < 0 \<or> int (length p) \<le> md"
  shows "walk_end s p = s
    \<or> (\<exists>r\<in>set (bfs ADJ s md a). r_id r = walk_end s p \<and> r_hop r \<le> int (length p))"
  using assms
proof (induction p rule: rev_induct)
  case Nil
  then show ?case by simp
next
  case (snoc e p)
  let ?R = "bfs ADJ s md a"
  let ?u = "walk_end s p"
  from snoc.prems(1) have walk: "is_walk ADJ a s p" and e: "e \<in> set (adj_get ADJ ?u)"
    and ok: "\<not> filtered_out a e"
    by (simp_all add: is_walk_append)
  have len: "md < 0 \<or> int (length p) + 1 \<le> md" using snoc.prems(2) by auto
  then have "md < 0 \<or> int (length p) \<le> md" by auto
  then have IH: "?u = s \<or> (\<exists>r\<in>set ?R. r_id r = ?u \<and> r_hop r \<le> int (length p))"
    using snoc.IH walk by simp
  have "\<exists>h. (h, e) \<in> set (edges_read ADJ s md a ?R) \<and> h \<le> int (length p)"
  proof (cases "?u = s")
    case True
    have "0 \<noteq> md" using len by auto
    then have "(0, e) \<in> set (edges_read ADJ s md a ?R)"
      using e ok True by (intro edges_read_intro [of ?u]) simp_all
    then show ?thesis by (intro exI [of _ 0]) simp
  next
    case False
    then obtain r where r: "r \<in> set ?R" "r_id r = ?u" "r_hop r \<le> int (length p)"
      using IH by auto
    have "1 \<le> r_hop r" using r(1) by (rule bfs_hops(1))
    then have "r_hop r \<noteq> md" using len r(3) by auto
    moreover have "(r_id r, r_hop r) \<in> (\<lambda>r. (r_id r, r_hop r)) ` set ?R"
      using r(1) by (rule imageI)
    then have "(?u, r_hop r) \<in> set ((s, 0) # map (\<lambda>r. (r_id r, r_hop r)) ?R)"
      by (simp add: r(2))
    ultimately have "(r_hop r, e) \<in> set (edges_read ADJ s md a ?R)"
      using e ok by (intro edges_read_intro [of ?u])
    then show ?thesis using r(3) by (intro exI [of _ "r_hop r"]) simp
  qed
  then obtain h where h: "(h, e) \<in> set (edges_read ADJ s md a ?R)" "h \<le> int (length p)"
    by auto
  have "a_target e = s \<or> (\<exists>x\<in>set ?R. r_id x = a_target e \<and> r_hop x \<le> h + 1)"
    using bfs_closed [OF h(1)] by simp
  then have "a_target e = s
      \<or> (\<exists>x\<in>set ?R. r_id x = a_target e \<and> r_hop x \<le> int (length (p @ [e])))"
    using h(2) by auto
  then show ?case by (simp add: walk_end_append)
qed

lemma bfs_walk:
  "r \<in> set (bfs ADJ s md a) \<Longrightarrow> r_hop r = int n \<Longrightarrow>
   \<exists>p. is_walk ADJ a s p \<and> walk_end s p = r_id r \<and> length p = n"
proof (induction n arbitrary: r)
  case 0
  then show ?case using bfs_hops(1) [of r ADJ s md a] by simp
next
  case (Suc n)
  let ?R = "bfs ADJ s md a"
  from Suc.prems(1) obtain h e
    where f: "find (leads_to (r_id r)) (edges_read ADJ s md a ?R) = Some (h, e)"
      and r: "r = \<lparr>r_id = a_target e, r_hop = h + 1, r_edge = Some (a_type e),
               r_weight = Some (a_weight e)\<rparr>"
    by (rule bfs_result_entry)
  have "(h, e) \<in> set (edges_read ADJ s md a ?R)" using find_SomeD [OF f] by simp
  then obtain u where u: "(u, h) \<in> set ((s, 0) # map (\<lambda>r. (r_id r, r_hop r)) ?R)"
    and e: "e \<in> set (adj_get ADJ u)" "\<not> filtered_out a e"
    using edges_read_mem by blast
  have h: "h = int n" using Suc.prems(2) r by simp
  have "\<exists>p. is_walk ADJ a s p \<and> walk_end s p = u \<and> length p = n"
  proof (cases "(u, h) = (s, 0)")
    case True
    then show ?thesis using h by (intro exI [of _ "[]"]) simp
  next
    case False
    then obtain r' where r': "r' \<in> set ?R" "r_id r' = u" "r_hop r' = h" using u by auto
    then show ?thesis using Suc.IH [of r'] h by simp
  qed
  then obtain p where p: "is_walk ADJ a s p" "walk_end s p = u" "length p = n" by auto
  have "is_walk ADJ a s (p @ [e])" using p e by (simp add: is_walk_append)
  moreover have "walk_end s (p @ [e]) = r_id r" using r by (simp add: walk_end_append)
  moreover have "length (p @ [e]) = Suc n" using p(3) by simp
  ultimately show ?case by blast
qed

lemma distinct_map_eq:
  "distinct (map f xs) \<Longrightarrow> x \<in> set xs \<Longrightarrow> y \<in> set xs \<Longrightarrow> f x = f y \<Longrightarrow> x = y"
  by (induction xs) (auto simp: image_iff)

lemma bfs_shortest:
  assumes r: "r \<in> set (bfs ADJ s md a)" and p: "is_walk ADJ a s p" "walk_end s p = r_id r"
  shows "r_hop r \<le> int (length p)"
proof (rule ccontr)
  assume "\<not> r_hop r \<le> int (length p)"
  then have lt: "int (length p) < r_hop r" by simp
  have "md < 0 \<or> int (length p) \<le> md"
  proof (cases "md < 0")
    case False
    then have "r_hop r \<le> md" using bfs_hops(2) [OF r] by simp
    then show ?thesis using lt by simp
  qed simp
  then have "walk_end s p = s
    \<or> (\<exists>r'\<in>set (bfs ADJ s md a). r_id r' = walk_end s p \<and> r_hop r' \<le> int (length p))"
    using p(1) by (intro bfs_reaches)
  moreover have "r_id r \<noteq> s" using bfs_ids(2) [of s ADJ md a] r by auto
  ultimately obtain r' where r': "r' \<in> set (bfs ADJ s md a)" "r_id r' = r_id r"
    "r_hop r' \<le> int (length p)" using p(2) by auto
  have "r' = r" using bfs_ids(1) r'(1) r r'(2) by (rule distinct_map_eq)
  then show False using r'(3) lt by simp
qed

lemma bfs_spec_edges_depth1:
  "bfs (build_ADJ spec_edges) 1 1 None
     = [\<lparr>r_id = 2, r_hop = 1, r_edge = Some ''related_to'', r_weight = Some 1\<rparr>]"
  by (simp add: build_spec_edges bfs_def adj_get_def filtered_out_def)

lemma bfs_spec_edges_negative:
  "bfs (build_ADJ spec_edges) 1 (- 1) None
     = [\<lparr>r_id = 2, r_hop = 1, r_edge = Some ''related_to'', r_weight = Some 1\<rparr>,
        \<lparr>r_id = 3, r_hop = 2, r_edge = Some ''related_to'', r_weight = Some (1 / 2)\<rparr>]"
  by (simp add: build_spec_edges bfs_def adj_get_def filtered_out_def)

section \<open>Properties of the vector index\<close>

subsection \<open>Cosine similarity\<close>









lemma denom_nth:
  "i < length matrix \<Longrightarrow>
   denom matrix v ! i
     = (if vnorm (matrix ! i) * vnorm v = 0 then 1 / 10 ^ 9 else vnorm (matrix ! i) * vnorm v)"
  by (simp add: denom_def Let_def)

lemma length_denom: "length (denom matrix v) = length matrix"
  by (simp add: denom_def Let_def)


lemma cosine_vec_matrix_eq:
  "cosine_vec_matrix matrix v =
     (if \<forall>row\<in>set matrix. length row = length v then Inr (map (\<lambda>row. cosine row v) matrix)
      else Inl ValueError)"
proof -
  have "map (\<lambda>(p, d). p / d) (zip (map (\<lambda>row. dot row v) matrix) (denom matrix v))
      = map (\<lambda>row. cosine row v) matrix"
    by (rule nth_equalityI) (simp_all add: length_denom denom_nth cosine_def)
  then show ?thesis by (simp add: cosine_vec_matrix_def matvec_def)
qed


subsection \<open>Index construction\<close>

lemma rows_uniform:
  "(\<forall>r\<in>set (map n_embedding nodes). \<forall>r'\<in>set (map n_embedding nodes). length r = length r')
     = uniform_dims nodes"
  unfolding uniform_dims_def by (simp only: set_map ball_simps)

lemma load_nodes_eq:
  "load_nodes nodes =
     (if uniform_dims nodes
      then \<lparr>NODES = nodes, EMB_ARRAY = map n_embedding nodes, NODE_IDS = map n_id nodes\<rparr>
      else \<lparr>NODES = [], EMB_ARRAY = [], NODE_IDS = []\<rparr>)"
  unfolding load_nodes_def np_array_def rows_uniform by simp

lemma search_vector_empty_index:
  "search_vector embed_text argsort \<lparr>NODES = [], EMB_ARRAY = [], NODE_IDS = []\<rparr> q k mf = Inr []"
  by (simp add: search_vector_def)

subsection \<open>Vector search\<close>

lemma is_argsort_ref: "is_argsort ref_argsort"
  by (simp add: is_argsort_def ref_argsort_def)

lemma uniform_dims_filter: "uniform_dims nodes \<Longrightarrow> uniform_dims (filter P nodes)"
  by (simp add: uniform_dims_def)

lemma np_array_uniform: "uniform_dims nodes \<Longrightarrow> np_array (map n_embedding nodes) = Inr (map n_embedding nodes)"
  unfolding np_array_def rows_uniform by simp

lemma cosine_rows:
  "cosine_vec_matrix (map n_embedding cands) q =
     (if \<forall>n\<in>set cands. length (n_embedding n) = length q
      then Inr (map (\<lambda>n. cosine (n_embedding n) q) cands) else Inl ValueError)"
  by (simp add: cosine_vec_matrix_eq comp_def)

lemma search_vector_pool:
  assumes "cands \<noteq> []"
  shows "(case cosine_vec_matrix (map n_embedding cands) q of
            Inl e \<Rightarrow> Inl e
          | Inr sims \<Rightarrow>
              (let top_k' = min top_k (int (length cands));
                   top_indices = py_take top_k' (rev (argsort sims))
               in Inr (map (\<lambda>idx. \<lparr>v_id = n_id (cands ! idx), v_name = n_name (cands ! idx),
                                   v_vector_score = sims ! idx\<rparr>) top_indices)))
       = (if \<forall>n\<in>set cands. length (n_embedding n) = length q
          then Inr (raw_results argsort cands q top_k) else Inl ValueError)"
  by (simp add: cosine_rows raw_results_def Let_def)

lemma search_vector_eq:
  "search_vector embed_text argsort (load_nodes nodes) query top_k mf =
     (let cands = candidates (load_nodes nodes) mf; q = embed_text query
      in if cands = [] then Inr []
         else if \<forall>n\<in>set cands. length (n_embedding n) = length q
         then Inr (raw_results argsort cands q top_k)
         else Inl ValueError)"
proof (cases "uniform_dims nodes \<and> nodes \<noteq> []")
  case False
  then have "NODES (load_nodes nodes) = []" by (auto simp: load_nodes_eq)
  then show ?thesis by (cases mf) (simp_all add: search_vector_def candidates_def)
next
  case True
  then have ix: "load_nodes nodes
      = \<lparr>NODES = nodes, EMB_ARRAY = map n_embedding nodes, NODE_IDS = map n_id nodes\<rparr>"
    by (simp add: load_nodes_eq)
  show ?thesis
  proof (cases mf)
    case None
    have "search_vector embed_text argsort (load_nodes nodes) query top_k None
        = (case cosine_vec_matrix (map n_embedding nodes) (embed_text query) of
            Inl e \<Rightarrow> Inl e
          | Inr sims \<Rightarrow>
              (let top_k' = min top_k (int (length nodes));
                   top_indices = py_take top_k' (rev (argsort sims))
               in Inr (map (\<lambda>idx. \<lparr>v_id = n_id (nodes ! idx), v_name = n_name (nodes ! idx),
                                   v_vector_score = sims ! idx\<rparr>) top_indices)))"
      using True unfolding ix by (simp add: search_vector_def Let_def)
    also have "\<dots> = (if \<forall>n\<in>set nodes. length (n_embedding n) = length (embed_text query)
          then Inr (raw_results argsort nodes (embed_text query) top_k) else Inl ValueError)"
      using True by (intro search_vector_pool) simp
    finally show ?thesis using True unfolding None ix by (simp add: candidates_def Let_def)
  next
    case (Some f)
    define fn where "fn = filter (metadata_matches f) nodes"
    show ?thesis
    proof (cases "fn = []")
      case e: True
      then show ?thesis using True unfolding Some ix
        by (simp add: search_vector_def candidates_def Let_def fn_def)
    next
      case ne: False
      have np: "np_array (map n_embedding fn) = Inr (map n_embedding fn)"
        unfolding fn_def using True by (intro np_array_uniform uniform_dims_filter) simp
      have "search_vector embed_text argsort (load_nodes nodes) query top_k (Some f)
        = (case cosine_vec_matrix (map n_embedding fn) (embed_text query) of
            Inl e \<Rightarrow> Inl e
          | Inr sims \<Rightarrow>
              (let top_k' = min top_k (int (length fn));
                   top_indices = py_take top_k' (rev (argsort sims))
               in Inr (map (\<lambda>idx. \<lparr>v_id = n_id (fn ! idx), v_name = n_name (fn ! idx),
                                   v_vector_score = sims ! idx\<rparr>) top_indices)))"
        using True ne np unfolding ix by (simp add: search_vector_def Let_def fn_def [symmetric])
      also have "\<dots> = (if \<forall>n\<in>set fn. length (n_embedding n) = length (embed_text query)
          then Inr (raw_results argsort fn (embed_text query) top_k) else Inl ValueError)"
        using ne by (rule search_vector_pool)
      finally show ?thesis using ne unfolding Some ix
        by (simp add: candidates_def Let_def fn_def [symmetric])
    qed
  qed
qed

lemma py_take_nonneg: "0 \<le> k \<Longrightarrow> py_take k xs = take (nat k) xs"
  by (simp add: py_take_def)

lemma py_take_map: "py_take k (map f xs) = map f (py_take k xs)"
  by (simp add: py_take_def take_map)

lemma argsort_indices:
  assumes "is_argsort argsort"
  shows "set (argsort xs) = {0..<length xs}"
proof -
  have "mset (argsort xs) = mset [0..<length xs]" using assms by (simp add: is_argsort_def)
  then have "set (argsort xs) = set [0..<length xs]" by (rule mset_eq_setD)
  then show ?thesis by simp
qed

lemma raw_results_ranked:
  assumes "is_argsort argsort"
  shows "raw_results argsort cands q top_k
    = py_take (min top_k (int (length cands))) (ranked argsort cands q)"
proof -
  define sims where "sims = map (\<lambda>n. cosine (n_embedding n) q) cands"
  have idx: "i < length cands" if "i \<in> set (argsort sims)" for i
    using that argsort_indices [OF assms, of sims] by (simp add: sims_def)
  have nth: "sims ! i = cosine (n_embedding (cands ! i)) q" if "i \<in> set (argsort sims)" for i
    using idx [OF that] by (simp add: sims_def)
  have "map (\<lambda>idx. \<lparr>v_id = n_id (cands ! idx), v_name = n_name (cands ! idx),
                     v_vector_score = sims ! idx\<rparr>) (rev (argsort sims))
      = map (\<lambda>i. scored q (cands ! i)) (rev (argsort sims))"
    by (rule map_cong) (simp_all add: scored_def nth)
  then have "map (\<lambda>idx. \<lparr>v_id = n_id (cands ! idx), v_name = n_name (cands ! idx),
                     v_vector_score = sims ! idx\<rparr>)
               (py_take (min top_k (int (length cands))) (rev (argsort sims)))
      = py_take (min top_k (int (length cands))) (map (\<lambda>i. scored q (cands ! i)) (rev (argsort sims)))"
    by (simp only: py_take_map [symmetric])
  then show ?thesis by (simp add: raw_results_def ranked_def Let_def sims_def)
qed

lemma ranked_mset:
  assumes "is_argsort argsort"
  shows "mset (ranked argsort cands q) = mset (map (scored q) cands)"
proof -
  define sims where "sims = map (\<lambda>n. cosine (n_embedding n) q) cands"
  have "mset (argsort sims) = mset [0..<length cands]"
    using assms by (simp add: is_argsort_def sims_def)
  then have "mset (rev (argsort sims)) = mset [0..<length cands]" by simp
  then have "mset (map (\<lambda>i. scored q (cands ! i)) (rev (argsort sims)))
      = mset (map (\<lambda>i. scored q (cands ! i)) [0..<length cands])"
    by (simp only: mset_map)
  also have "map (\<lambda>i. scored q (cands ! i)) [0..<length cands] = map (scored q) cands"
    by (rule nth_equalityI) simp_all
  finally show ?thesis by (simp add: ranked_def sims_def)
qed

lemma ranked_sorted:
  assumes "is_argsort argsort"
  shows "sorted (rev (map v_vector_score (ranked argsort cands q)))"
proof -
  define sims where "sims = map (\<lambda>n. cosine (n_embedding n) q) cands"
  have idx: "i < length cands" if "i \<in> set (argsort sims)" for i
    using that argsort_indices [OF assms, of sims] by (simp add: sims_def)
  have nth: "sims ! i = cosine (n_embedding (cands ! i)) q" if "i \<in> set (argsort sims)" for i
    using idx [OF that] by (simp add: sims_def)
  have eq: "map v_vector_score (map (\<lambda>i. scored q (cands ! i)) (argsort sims))
      = map (\<lambda>i. sims ! i) (argsort sims)"
    unfolding map_map by (rule map_cong) (simp_all add: scored_def nth)
  have srt: "sorted (map (\<lambda>i. sims ! i) (argsort sims))"
    using assms by (simp add: is_argsort_def)
  have "sorted (map v_vector_score (map (\<lambda>i. scored q (cands ! i)) (argsort sims)))"
    unfolding eq by (rule srt)
  then show ?thesis by (simp add: ranked_def sims_def rev_map)
qed

lemma desc_take: "sorted (rev (map f xs)) \<Longrightarrow> sorted (rev (map f (take m xs)))"
proof -
  assume "sorted (rev (map f xs))"
  then have "sorted (drop (length xs - m) (rev (map f xs)))" by (rule sorted_wrt_drop)
  then show ?thesis by (simp add: rev_take take_map [symmetric] del: take_map)
qed

lemma desc_take_drop:
  assumes "sorted (rev (map f xs))" "x \<in> set (drop m xs)" "r \<in> set (take m xs)"
  shows "f x \<le> f r"
proof -
  have "xs = take m xs @ drop m xs" by simp
  then have "rev (map f xs) = rev (map f (drop m xs)) @ rev (map f (take m xs))"
    by (metis map_append rev_append)
  then have "sorted (rev (map f (drop m xs)) @ rev (map f (take m xs)))" using assms(1) by simp
  then show ?thesis using assms(2,3) by (auto simp: sorted_append)
qed

lemma ex_nodes_uniform: "uniform_dims ex_nodes"
proof -
  have "\<forall>n\<in>set ex_nodes. length (n_embedding n) = 2" by (simp add: ex_nodes_def)
  then show ?thesis by (simp add: uniform_dims_def)
qed

lemma load_ex_nodes:
  "load_nodes ex_nodes
     = \<lparr>NODES = ex_nodes, EMB_ARRAY = map n_embedding ex_nodes, NODE_IDS = map n_id ex_nodes\<rparr>"
  by (simp add: load_nodes_eq ex_nodes_uniform)

lemma candidates_ex_nodes: "candidates (load_nodes ex_nodes) None = ex_nodes"
  by (simp add: candidates_def load_ex_nodes)

lemma ex_nodes_dims: "\<forall>n\<in>set ex_nodes. length (n_embedding n) = length [1, 0 :: real]"
  by (simp add: ex_nodes_def)

lemma ex_sims:
  "map (\<lambda>n. cosine (n_embedding n) [1, 0]) ex_nodes = [1, 0, - 1]"
  by (simp add: ex_nodes_def cosine_def dot_def vnorm_def)

lemma ref_argsort_ex: "ref_argsort [1, 0, - 1] = [2, 1, 0]"
  by (simp add: ref_argsort_def upt_rec)

lemma search_ex_2:
  "search_vector (\<lambda>t. [1, 0]) ref_argsort (load_nodes ex_nodes) ''q'' 2 None
     = Inr [\<lparr>v_id = 1, v_name = ''a'', v_vector_score = 1\<rparr>,
            \<lparr>v_id = 2, v_name = ''b'', v_vector_score = 0\<rparr>]"
  unfolding search_vector_eq candidates_ex_nodes Let_def raw_results_def ex_sims ref_argsort_ex
  using ex_nodes_dims by (simp add: py_take_def ex_nodes_def)

lemma search_ex_neg:
  "search_vector (\<lambda>t. [1, 0]) ref_argsort (load_nodes ex_nodes) ''q'' (- 1) None
     = Inr [\<lparr>v_id = 1, v_name = ''a'', v_vector_score = 1\<rparr>,
            \<lparr>v_id = 2, v_name = ''b'', v_vector_score = 0\<rparr>]"
  unfolding search_vector_eq candidates_ex_nodes Let_def raw_results_def ex_sims ref_argsort_ex
  using ex_nodes_dims by (simp add: py_take_def ex_nodes_def)

lemma ranked_length:
  assumes "is_argsort argsort"
  shows "length (ranked argsort cands q) = length cands"
  using ranked_mset [OF assms, of cands q] by (metis length_map mset_eq_length)

section \<open>Properties of the hybrid search\<close>

lemma update_fresh_key: "k \<notin> fst ` set d \<Longrightarrow> AList.update k v d = d @ [(k, v)]"
  by (induction d) auto

lemma foldl_update_distinct:
  "distinct (map fst (d @ kvs)) \<Longrightarrow> foldl (\<lambda>d (k, v). AList.update k v d) d kvs = d @ kvs"
proof (induction kvs arbitrary: d)
  case Nil
  then show ?case by simp
next
  case (Cons kv kvs)
  obtain k v where kv: "kv = (k, v)" by (cases kv)
  have "k \<notin> fst ` set d" using Cons.prems by (auto simp: kv)
  then have "AList.update k v d = d @ [(k, v)]" by (rule update_fresh_key)
  moreover have "distinct (map fst ((d @ [(k, v)]) @ kvs))" using Cons.prems by (simp add: kv)
  ultimately show ?case using Cons.IH [of "d @ [(k, v)]"] by (simp add: kv)
qed

lemma dict_of_distinct: "distinct (map fst kvs) \<Longrightarrow> dict_of kvs = kvs"
  using foldl_update_distinct [of "[]" kvs] by (simp add: dict_of_def)

lemma graph_closeness_bfs:
  "graph_closeness n (bfs ADJ s md a) = Inr (closeness_of n (bfs ADJ s md a))"
proof (cases "find (\<lambda>r. r_id r = n) (bfs ADJ s md a)")
  case None
  then show ?thesis by (simp add: closeness_of_def graph_closeness_find)
next
  case (Some r)
  then have r: "r \<in> set (bfs ADJ s md a)" using find_SomeD by fastforce
  obtain w where w: "r_weight r = Some w" using bfs_weight [OF r] by auto
  have "1 \<le> r_hop r" using r by (rule bfs_hops(1))
  then have "1 + r_hop r \<noteq> 0" by simp
  then show ?thesis using Some w by (simp add: closeness_of_def graph_closeness_find)
qed

lemma graph_scores_of_bfs:
  "graph_scores_of ks (bfs ADJ s md a)
     = Inr (map (\<lambda>k. (k, closeness_of k (bfs ADJ s md a))) ks)"
  by (induction ks) (simp_all add: graph_closeness_bfs)

lemma map_of_scores: "k \<in> set ks \<Longrightarrow> map_of (map (\<lambda>k. (k, f k)) ks) k = Some (f k)"
  by (induction ks) auto

lemma merge_one_fused:
  assumes "v_id r \<in> set ks"
  shows "merge_one NODES_h visited (map (\<lambda>k. (k, closeness_of k visited)) ks) alpha (1 - alpha)
           (v_id r, v_vector_score r)
         = fused NODES_h visited alpha r"
  using map_of_scores [OF assms, of "\<lambda>k. closeness_of k visited"]
  by (simp add: merge_one_def fused_def Let_def)

lemma search_vector_props:
  assumes arg: "is_argsort argsort" and k: "0 \<le> top_k" and ids: "distinct (map n_id nodes)"
    and res: "search_vector embed_text argsort (load_nodes nodes) query top_k None = Inr vr"
  shows "distinct (map v_id vr)" "sorted (rev (map v_vector_score vr))" "int (length vr) \<le> top_k"
proof -
  define cands where "cands = candidates (load_nodes nodes) None"
  define q where "q = embed_text query"
  define R where "R = ranked argsort cands q"
  define m where "m = nat (min top_k (int (length cands)))"
  have k': "0 \<le> min top_k (int (length cands))" using k by simp
  have sub: "cands = nodes \<or> cands = []"
    by (simp add: cands_def candidates_def load_nodes_eq)
  then have dc: "distinct (map n_id cands)" using ids by auto
  have "vr = [] \<or> vr = raw_results argsort cands q top_k"
    using res unfolding search_vector_eq Let_def cands_def [symmetric] q_def [symmetric]
    by (auto split: if_splits)
  then have vr: "vr = [] \<or> vr = take m R"
    unfolding raw_results_ranked [OF arg] py_take_nonneg [OF k'] m_def R_def .
  have "mset (map v_id R) = mset (map n_id cands)"
    using ranked_mset [OF arg, of cands q] unfolding R_def
    by (metis (no_types, lifting) map_map mset_map comp_def scored_def vec_result.select_convs(1)
        map_cong)
  then have "distinct (map v_id R)" using dc mset_eq_imp_distinct_iff by blast
  then have "distinct (map v_id (take m R))" by (simp add: take_map [symmetric] del: take_map)
  then show "distinct (map v_id vr)" using vr by auto
  have "sorted (rev (map v_vector_score (take m R)))"
    using ranked_sorted [OF arg, of cands q] unfolding R_def by (rule desc_take)
  then show "sorted (rev (map v_vector_score vr))" using vr by auto
  have "int (length (take m R)) \<le> top_k" using k by (simp add: m_def)
  then show "int (length vr) \<le> top_k" using vr k by auto
qed

lemma py_sort_desc_mset: "mset (py_sort_desc key xs) = mset xs"
  by (simp add: py_sort_desc_def)

lemma py_sort_desc_sorted: "sorted (rev (map key (py_sort_desc key xs)))"
  by (simp add: py_sort_desc_def rev_map)

lemma py_sort_desc_stable:
  "filter (\<lambda>y. key y = k) (py_sort_desc key xs) = filter (\<lambda>y. key y = k) xs"
proof -
  have "filter (\<lambda>y. key y = k) (sort_key key (rev xs)) = filter (\<lambda>y. key y = k) (rev xs)"
    by (rule sort_key_stable)
  then show ?thesis by (simp add: py_sort_desc_def rev_filter [symmetric] del: rev_filter)
qed

lemma py_sort_desc_id: "sorted (rev (map key xs)) \<Longrightarrow> py_sort_desc key xs = xs"
proof -
  assume "sorted (rev (map key xs))"
  then have "sorted (map key (rev xs))" by (simp add: rev_map)
  then have "sort_key key (rev xs) = rev xs" by (rule sort_key_id_if_sorted)
  then show ?thesis by (simp add: py_sort_desc_def)
qed

lemma hybrid_search_eq:
  assumes arg: "is_argsort argsort" and k: "0 \<le> top_k" and ids: "distinct (map n_id nodes)"
    and res: "search_vector embed_text argsort (load_nodes nodes) query top_k None = Inr vr"
  shows "hybrid_search embed_text argsort (load_nodes nodes) NODES_h ADJ query top_k focus_id
           bfs_depth alpha
         = Inr (py_sort_desc h_final_score
                  (map (fused NODES_h (bfs ADJ (anchor focus_id vr) bfs_depth None) alpha) vr))"
proof (cases "vr = []")
  case True
  then show ?thesis using res by (simp add: hybrid_search_def py_sort_desc_def)
next
  case False
  define visited where "visited = bfs ADJ (anchor focus_id vr) bfs_depth None"
  define kvs where "kvs = map (\<lambda>r. (v_id r, v_vector_score r)) vr"
  have dk: "distinct (map fst kvs)"
    using search_vector_props(1) [OF arg k ids res] by (simp add: kvs_def comp_def)
  have dict: "dict_of kvs = kvs" using dk by (rule dict_of_distinct)
  have keys: "map fst kvs = map v_id vr" by (simp add: kvs_def comp_def)
  define S where "S = map (\<lambda>k. (k, closeness_of k visited)) (map v_id vr)"
  have gs: "graph_scores_of (map v_id vr) visited = Inr S"
    unfolding visited_def S_def by (rule graph_scores_of_bfs)
  have mo: "merge_one NODES_h visited S alpha (1 - alpha) (v_id r, v_vector_score r)
      = fused NODES_h visited alpha r" if "r \<in> set vr" for r
    unfolding S_def using that by (intro merge_one_fused) simp
  have merged: "map (merge_one NODES_h visited S alpha (1 - alpha)) kvs
      = map (fused NODES_h visited alpha) vr"
    unfolding kvs_def map_map comp_def by (rule map_cong [OF refl]) (rule mo)
  have len: "int (length (map (fused NODES_h visited alpha) vr)) \<le> top_k"
    using search_vector_props(3) [OF arg k ids res] by simp
  have take: "py_take top_k xs = xs" if "int (length xs) \<le> top_k" for xs :: "hybrid_result list"
    using that k by (simp add: py_take_def)
  have "hybrid_search embed_text argsort (load_nodes nodes) NODES_h ADJ query top_k focus_id
           bfs_depth alpha
      = Inr (py_take top_k (py_sort_desc h_final_score (map (fused NODES_h visited alpha) vr)))"
    using False res
    by (simp add: hybrid_search_def Let_def kvs_def [symmetric] dict keys anchor_def [symmetric]
        visited_def [symmetric] gs merged)
  also have "py_take top_k (py_sort_desc h_final_score (map (fused NODES_h visited alpha) vr))
      = py_sort_desc h_final_score (map (fused NODES_h visited alpha) vr)"
    using len by (intro take) (simp add: py_sort_desc_def)
  finally show ?thesis unfolding visited_def .
qed

lemma ex_nodes_ids: "distinct (map n_id ex_nodes)"
  by (simp add: ex_nodes_def)

lemma hybrid_ex_neg:
  "hybrid_search (\<lambda>t. [1, 0]) ref_argsort (load_nodes ex_nodes) ex_nodes (build_ADJ spec_edges)
     ''q'' (- 1) None 2 1
   = Inr [\<lparr>h_id = 1, h_name = Some ''a'', h_text = Some ''ta'', h_vector_score = 1,
           h_graph_score = 0, h_final_score = 1, h_hop = None\<rparr>]"
  unfolding hybrid_search_def search_ex_neg
  by (simp add: dict_of_def bfs_spec_edges Let_def merge_one_def
      py_sort_desc_def py_take_def ex_nodes_def)

lemma hybrid_ex_neg_focus:
  "hybrid_search (\<lambda>t. [1, 0]) ref_argsort (load_nodes ex_nodes) ex_nodes (build_ADJ spec_edges)
     ''q'' (- 1) (Some 99) 2 (7 / 10)
   = Inr [\<lparr>h_id = 1, h_name = Some ''a'', h_text = Some ''ta'', h_vector_score = 1,
           h_graph_score = 0, h_final_score = 7 / 10, h_hop = None\<rparr>]"
  unfolding hybrid_search_def search_ex_neg
  by (simp add: dict_of_def bfs_def build_spec_edges Let_def merge_one_def
      py_sort_desc_def py_take_def ex_nodes_def)

lemma fused_fields:
  "h_id (fused N V al r) = v_id r"
  "h_vector_score (fused N V al r) = v_vector_score r"
  "h_graph_score (fused N V al r) = closeness_of (v_id r) V"
  "h_final_score (fused N V al r) = al * v_vector_score r + (1 - al) * closeness_of (v_id r) V"
  "h_hop (fused N V al r) = map_option r_hop (find (\<lambda>item. r_id item = v_id r) V)"
  by (simp_all add: fused_def)

lemma bfs_unknown_start: "f \<notin> fst ` set ADJ \<Longrightarrow> bfs ADJ f d a = []"
  by (simp add: bfs_def)

lemma adj_spec_edges_99: "map_of (build_ADJ spec_edges) 99 = None"
  by (simp add: build_spec_edges)

lemma adj_spec_edges_no_99: "99 \<notin> fst ` set (build_ADJ spec_edges)"
  by (simp add: build_spec_edges)

section \<open>Claims\<close>

text \<open>
  C1. The list returned by the traversal contains no entry for the start node and no id
  twice. The entry of each id is made from the first adjacency entry leading to that id in
  the order in which the traversal reads entries (\<open>edges_read\<close>: nodes in the order they leave
  the queue, each neighbour list in stored order): it carries that entry's type and weight
  and one more than the depth of the node the entry was read from. Its hop is the length of
  a shortest walk from the start node over entries that pass the type filter: a walk of that
  length exists, and no walk to the id is shorter.
\<close>

theorem bfs_first_discovery:
  "s \<notin> r_id ` set (bfs ADJ s md a)
   \<and> distinct (map r_id (bfs ADJ s md a))
   \<and> (\<forall>r\<in>set (bfs ADJ s md a).
        (\<exists>h e. find (leads_to (r_id r)) (edges_read ADJ s md a (bfs ADJ s md a)) = Some (h, e)
           \<and> r = \<lparr>r_id = a_target e, r_hop = h + 1, r_edge = Some (a_type e),
                  r_weight = Some (a_weight e)\<rparr>)
      \<and> (\<exists>p. is_walk ADJ a s p \<and> walk_end s p = r_id r \<and> int (length p) = r_hop r)
      \<and> (\<forall>p. is_walk ADJ a s p \<and> walk_end s p = r_id r \<longrightarrow> r_hop r \<le> int (length p)))"
proof (intro conjI ballI allI impI)
  show "s \<notin> r_id ` set (bfs ADJ s md a)" by (rule bfs_ids(2))
  show "distinct (map r_id (bfs ADJ s md a))" by (rule bfs_ids(1))
next
  fix r assume r: "r \<in> set (bfs ADJ s md a)"
  show "\<exists>h e. find (leads_to (r_id r)) (edges_read ADJ s md a (bfs ADJ s md a)) = Some (h, e)
           \<and> r = \<lparr>r_id = a_target e, r_hop = h + 1, r_edge = Some (a_type e),
                  r_weight = Some (a_weight e)\<rparr>"
    by (rule bfs_result_entry [OF r]) blast
  have "0 \<le> r_hop r" using bfs_hops(1) [OF r] by simp
  then have "r_hop r = int (nat (r_hop r))" by simp
  then obtain p where "is_walk ADJ a s p" "walk_end s p = r_id r" "length p = nat (r_hop r)"
    using bfs_walk [OF r] by blast
  then show "\<exists>p. is_walk ADJ a s p \<and> walk_end s p = r_id r \<and> int (length p) = r_hop r"
    using \<open>0 \<le> r_hop r\<close> by (intro exI [of _ p]) simp
next
  fix r p assume "r \<in> set (bfs ADJ s md a)" "is_walk ADJ a s p \<and> walk_end s p = r_id r"
  then show "r_hop r \<le> int (length p)" using bfs_shortest by blast
qed

theorem bfs_first_discovery_witness:
  "1 \<notin> r_id ` set (bfs (build_ADJ ex_edges) 1 2 None)
   \<and> distinct (map r_id (bfs (build_ADJ ex_edges) 1 2 None))
   \<and> (\<exists>h e. find (leads_to 3)
         (edges_read (build_ADJ ex_edges) 1 2 None (bfs (build_ADJ ex_edges) 1 2 None)) = Some (h, e)
        \<and> \<lparr>r_id = 3, r_hop = 1, r_edge = Some ''related_to'', r_weight = Some 2\<rparr>
            = \<lparr>r_id = a_target e, r_hop = h + 1, r_edge = Some (a_type e),
               r_weight = Some (a_weight e)\<rparr>)
   \<and> (\<exists>p. is_walk (build_ADJ ex_edges) None 1 p \<and> walk_end 1 p = 3 \<and> int (length p) = 1)
   \<and> (1::int) \<le> int (length
         [\<lparr>a_target = 2, a_type = ''evolves_into'', a_weight = 1\<rparr>,
          \<lparr>a_target = 3, a_type = ''related_to'', a_weight = 1 / 2\<rparr>])"
proof -
  let ?A = "build_ADJ ex_edges"
  let ?r = "\<lparr>r_id = 3, r_hop = 1, r_edge = Some ''related_to'', r_weight = Some (2::real)\<rparr>"
  let ?p = "[\<lparr>a_target = 2, a_type = ''evolves_into'', a_weight = 1\<rparr>,
             \<lparr>a_target = 3, a_type = ''related_to'', a_weight = 1 / 2\<rparr>]"
  note inst = bfs_first_discovery [of 1 ?A 2 None]
  have r: "?r \<in> set (bfs ?A 1 2 None)" by (simp add: bfs_ex_all)
  have walk: "is_walk ?A None 1 ?p \<and> walk_end 1 ?p = r_id ?r"
    by (simp add: build_ex_edges adj_get_def filtered_out_def)
  have "r_hop ?r \<le> int (length ?p)" using inst r walk by blast
  moreover have "\<exists>h e. find (leads_to (r_id ?r)) (edges_read ?A 1 2 None (bfs ?A 1 2 None)) = Some (h, e)
       \<and> ?r = \<lparr>r_id = a_target e, r_hop = h + 1, r_edge = Some (a_type e),
                r_weight = Some (a_weight e)\<rparr>"
    using inst r by blast
  moreover have "\<exists>p. is_walk ?A None 1 p \<and> walk_end 1 p = r_id ?r \<and> int (length p) = r_hop ?r"
    using inst r by blast
  ultimately show ?thesis using inst by simp
qed

text \<open>
  C2 (amended). For \<open>max_depth = k\<close> with \<open>0 \<le> k\<close>: every entry has \<open>hop \<le> k\<close>; every
  node other than the start that a walk of at most \<open>k\<close> filtered edges reaches is in the result
  (nodes at exactly hop \<open>k\<close> included), and every entry is reached by a walk of its hop's
  length, so nothing beyond \<open>k\<close> hops is returned; a dequeued node at depth \<open>k > 0\<close> is
  appended to the results and the loop goes on with the queue and the visited set unchanged
  (it is not expanded). For a negative \<open>max_depth\<close> the test \<^verbatim>\<open>depth == max_depth\<close> never
  holds and the traversal is not bounded: the counterexample has an entry of hop 1 for
  \<open>max_depth = -1\<close>.
\<close>

theorem bfs_depth_bound:
  assumes "0 \<le> md"
  shows "(\<forall>r\<in>set (bfs ADJ s md a). r_hop r \<le> md)
   \<and> (\<forall>p. is_walk ADJ a s p \<and> int (length p) \<le> md \<and> walk_end s p \<noteq> s
         \<longrightarrow> (\<exists>r\<in>set (bfs ADJ s md a). r_id r = walk_end s p \<and> r_hop r \<le> int (length p)))
   \<and> (\<forall>r\<in>set (bfs ADJ s md a).
         \<exists>p. is_walk ADJ a s p \<and> walk_end s p = r_id r \<and> int (length p) = r_hop r)
   \<and> (\<forall>n t w Q V R. 0 < md \<longrightarrow>
         bfs_loop ADJ md a ((n, md, t, w) # Q) V R
           = bfs_loop ADJ md a Q V (R @ [\<lparr>r_id = n, r_hop = md, r_edge = t, r_weight = w\<rparr>]))"
proof (intro conjI ballI allI impI)
  fix r assume "r \<in> set (bfs ADJ s md a)"
  then show "r_hop r \<le> md" using assms by (rule bfs_hops(2))
next
  fix p assume p: "is_walk ADJ a s p \<and> int (length p) \<le> md \<and> walk_end s p \<noteq> s"
  then have "walk_end s p = s
    \<or> (\<exists>r\<in>set (bfs ADJ s md a). r_id r = walk_end s p \<and> r_hop r \<le> int (length p))"
    by (intro bfs_reaches) simp_all
  then show "\<exists>r\<in>set (bfs ADJ s md a). r_id r = walk_end s p \<and> r_hop r \<le> int (length p)"
    using p by simp
next
  fix r assume r: "r \<in> set (bfs ADJ s md a)"
  have "0 \<le> r_hop r" using bfs_hops(1) [OF r] by simp
  then have "r_hop r = int (nat (r_hop r))" by simp
  then obtain p where "is_walk ADJ a s p" "walk_end s p = r_id r" "length p = nat (r_hop r)"
    using bfs_walk [OF r] by blast
  then show "\<exists>p. is_walk ADJ a s p \<and> walk_end s p = r_id r \<and> int (length p) = r_hop r"
    using \<open>0 \<le> r_hop r\<close> by (intro exI [of _ p]) simp
next
  fix n t w Q V R assume "0 < md"
  then show "bfs_loop ADJ md a ((n, md, t, w) # Q) V R
           = bfs_loop ADJ md a Q V (R @ [\<lparr>r_id = n, r_hop = md, r_edge = t, r_weight = w\<rparr>])"
    by simp
qed

theorem bfs_depth_bound_witness:
  "(0::int) \<le> 1
   \<and> bfs (build_ADJ spec_edges) 1 1 None
       = [\<lparr>r_id = 2, r_hop = 1, r_edge = Some ''related_to'', r_weight = Some 1\<rparr>]
   \<and> r_hop \<lparr>r_id = 2, r_hop = 1, r_edge = Some ''related_to'', r_weight = Some (1::real)\<rparr> \<le> 1
   \<and> bfs_loop (build_ADJ spec_edges) 1 None [(2, 1, Some ''related_to'', Some 1)] {1, 2} []
       = bfs_loop (build_ADJ spec_edges) 1 None [] {1, 2}
           [\<lparr>r_id = 2, r_hop = 1, r_edge = Some ''related_to'', r_weight = Some 1\<rparr>]"
proof -
  have h: "(0::int) \<le> 1" by simp
  note inst = bfs_depth_bound [OF h, of "build_ADJ spec_edges" 1 None]
  show ?thesis using inst by (simp add: bfs_spec_edges_depth1)
qed

theorem bfs_negative_depth_counterexample:
  "\<lparr>r_id = 2, r_hop = 1, r_edge = Some ''related_to'', r_weight = Some 1\<rparr>
     \<in> set (bfs (build_ADJ spec_edges) 1 (- 1) None)
   \<and> \<not> r_hop \<lparr>r_id = 2, r_hop = 1, r_edge = Some ''related_to'', r_weight = Some (1::real)\<rparr> \<le> - 1"
  by (simp add: bfs_spec_edges_negative)

text \<open>
  C3. With a non-empty list \<open>ts\<close> of allowed types, every entry of the result carries an
  edge type that is a member of \<open>ts\<close>; and the traversal with an empty list of allowed types
  returns the same list as the traversal with no filter.
\<close>

theorem bfs_type_filter:
  "(ts \<noteq> [] \<longrightarrow> (\<forall>r\<in>set (bfs ADJ s md (Some ts)). \<exists>t\<in>set ts. r_edge r = Some t))
   \<and> bfs ADJ s md (Some []) = bfs ADJ s md None"
proof (intro conjI impI ballI)
  fix r assume ts: "ts \<noteq> []" and r: "r \<in> set (bfs ADJ s md (Some ts))"
  from r obtain h e where "r_edge r = Some (a_type e)" "\<not> filtered_out (Some ts) e"
    by (rule bfs_result_entry) simp
  then show "\<exists>t\<in>set ts. r_edge r = Some t" using ts by (auto simp: filtered_out_def)
next
  show "bfs ADJ s md (Some []) = bfs ADJ s md None"
    by (simp add: bfs_def bfs_loop_empty_filter expand_empty_filter)
qed


theorem bfs_type_filter_witness:
  "bfs (build_ADJ ex_edges) 1 2 (Some [''evolves_into''])
     = [\<lparr>r_id = 2, r_hop = 1, r_edge = Some ''evolves_into'', r_weight = Some 1\<rparr>]
   \<and> (\<exists>t\<in>set [''evolves_into''].
         r_edge \<lparr>r_id = 2, r_hop = 1, r_edge = Some ''evolves_into'', r_weight = Some 1\<rparr> = Some t)
   \<and> bfs (build_ADJ ex_edges) 1 2 (Some []) = bfs (build_ADJ ex_edges) 1 2 None"
  using bfs_type_filter [of "[''evolves_into'']" "build_ADJ ex_edges" 1 2]
  by (simp add: bfs_ex_filtered)


text \<open>
  C4. The adjacency built from an edge list is symmetric. For every edge of the input, the
  neighbour list of its source holds an entry for its target and the neighbour list of its
  target an entry for its source, both with the edge's type and weight (\<open>rel_of\<close>, \<open>wt_of\<close>:
  the stored value or the default). Every entry of a neighbour list has its reverse entry, with
  the same type and weight, in the list of its target. The neighbour list of a node is the
  concatenation, in input edge order, of the forward and backward entries of the edges at
  that node.
\<close>

theorem build_ADJ_symmetric:
  "(\<forall>e\<in>set EDGES.
      \<lparr>a_target = e_target e, a_type = rel_of e, a_weight = wt_of e\<rparr>
        \<in> set (adj_get (build_ADJ EDGES) (e_source e))
    \<and> \<lparr>a_target = e_source e, a_type = rel_of e, a_weight = wt_of e\<rparr>
        \<in> set (adj_get (build_ADJ EDGES) (e_target e)))
   \<and> (\<forall>k. \<forall>x\<in>set (adj_get (build_ADJ EDGES) k).
        \<lparr>a_target = k, a_type = a_type x, a_weight = a_weight x\<rparr>
          \<in> set (adj_get (build_ADJ EDGES) (a_target x)))
   \<and> (\<forall>k. adj_get (build_ADJ EDGES) k = concat (map (entries_at k) EDGES))"
proof (intro conjI ballI allI)
  fix e assume "e \<in> set EDGES"
  then show "\<lparr>a_target = e_target e, a_type = rel_of e, a_weight = wt_of e\<rparr>
        \<in> set (adj_get (build_ADJ EDGES) (e_source e))"
    unfolding adj_get_build_ADJ by (auto simp: entries_at_def intro!: bexI [of _ e])
next
  fix e assume "e \<in> set EDGES"
  then show "\<lparr>a_target = e_source e, a_type = rel_of e, a_weight = wt_of e\<rparr>
        \<in> set (adj_get (build_ADJ EDGES) (e_target e))"
    unfolding adj_get_build_ADJ by (auto simp: entries_at_def intro!: bexI [of _ e])
next
  fix k x assume "x \<in> set (adj_get (build_ADJ EDGES) k)"
  then obtain e where e: "e \<in> set EDGES" "x \<in> set (entries_at k e)"
    unfolding adj_get_build_ADJ by auto
  then have "\<lparr>a_target = k, a_type = a_type x, a_weight = a_weight x\<rparr>
      \<in> set (entries_at (a_target x) e)"
    by (auto simp: entries_at_def split: if_splits)
  then show "\<lparr>a_target = k, a_type = a_type x, a_weight = a_weight x\<rparr>
          \<in> set (adj_get (build_ADJ EDGES) (a_target x))"
    unfolding adj_get_build_ADJ using e(1) by auto
next
  fix k show "adj_get (build_ADJ EDGES) k = concat (map (entries_at k) EDGES)"
    by (rule adj_get_build_ADJ)
qed

theorem build_ADJ_symmetric_witness:
  "\<lparr>a_target = 2, a_type = ''evolves_into'', a_weight = 1\<rparr> \<in> set (adj_get (build_ADJ ex_edges) 1)
   \<and> \<lparr>a_target = 1, a_type = ''evolves_into'', a_weight = 1\<rparr> \<in> set (adj_get (build_ADJ ex_edges) 2)
   \<and> \<lparr>a_target = 3, a_type = ''related_to'', a_weight = 2\<rparr> \<in> set (adj_get (build_ADJ ex_edges) 1)
   \<and> \<lparr>a_target = 1, a_type = ''related_to'', a_weight = 2\<rparr> \<in> set (adj_get (build_ADJ ex_edges) 3)
   \<and> adj_get (build_ADJ ex_edges) 3
       = [\<lparr>a_target = 2, a_type = ''related_to'', a_weight = 1 / 2\<rparr>,
          \<lparr>a_target = 1, a_type = ''related_to'', a_weight = 2\<rparr>]"
  using build_ADJ_symmetric [of ex_edges]
  by (simp add: ex_edges_def rel_of_def wt_of_def entries_at_def)

text \<open>
  C5. In a result list without duplicate ids, the closeness score of an id that occurs in
  the list is \<open>weight / (1 + hop)\<close> of its entry, and the score of an id that does not occur
  is \<open>0\<close>. Every list returned by the traversal is such a list, so every node it reached
  scores \<open>weight / (1 + hop)\<close> without an exception. On the graph of the specification's
  example, the traversal from node 1 with depth 2 returns the entries for nodes 2 and 3
  as stated, and the closeness of node 3 is \<open>0.5 / 3\<close>.
\<close>

theorem graph_closeness_score:
  "(\<forall>r\<in>set rs. \<forall>w. distinct (map r_id rs) \<and> r_weight r = Some w \<and> r_hop r \<noteq> - 1
       \<longrightarrow> graph_closeness (r_id r) rs = Inr (w / real_of_int (1 + r_hop r)))
   \<and> (\<forall>n. n \<notin> r_id ` set rs \<longrightarrow> graph_closeness n rs = Inr 0)
   \<and> (\<forall>r\<in>set (bfs ADJ s md a). \<exists>w. r_weight r = Some w
         \<and> graph_closeness (r_id r) (bfs ADJ s md a) = Inr (w / real_of_int (1 + r_hop r)))
   \<and> bfs (build_ADJ spec_edges) 1 2 None
       = [\<lparr>r_id = 2, r_hop = 1, r_edge = Some ''related_to'', r_weight = Some 1\<rparr>,
          \<lparr>r_id = 3, r_hop = 2, r_edge = Some ''related_to'', r_weight = Some (1 / 2)\<rparr>]
   \<and> graph_closeness 3 (bfs (build_ADJ spec_edges) 1 2 None) = Inr ((1 / 2) / 3)"
proof -
  have gen: "graph_closeness (r_id r) rs = Inr (w / real_of_int (1 + r_hop r))"
    if "r \<in> set rs" "distinct (map r_id rs)" "r_weight r = Some w" "r_hop r \<noteq> - 1" for r w rs
  proof -
    have "find (\<lambda>y. r_id y = r_id r) rs = Some r" using that(2,1) by (rule find_distinct)
    moreover have "1 + r_hop r \<noteq> 0" using that(4) by simp
    ultimately show ?thesis using that(3) by (simp add: graph_closeness_find)
  qed
  have none: "graph_closeness n rs = Inr 0" if "n \<notin> r_id ` set rs" for n
  proof -
    have "find (\<lambda>r. r_id r = n) rs = None" using that by (auto simp: find_None_iff)
    then show ?thesis by (simp add: graph_closeness_find)
  qed
  have trav: "\<exists>w. r_weight r = Some w
      \<and> graph_closeness (r_id r) (bfs ADJ s md a) = Inr (w / real_of_int (1 + r_hop r))"
    if r: "r \<in> set (bfs ADJ s md a)" for r
  proof -
    obtain w where w: "r_weight r = Some w" using bfs_weight [OF r] by auto
    have "1 \<le> r_hop r" using r by (rule bfs_hops(1))
    then have "r_hop r \<noteq> - 1" by simp
    then show ?thesis using gen [OF r bfs_ids(1) w] w by simp
  qed
  have ex: "graph_closeness 3 (bfs (build_ADJ spec_edges) 1 2 None) = Inr ((1 / 2) / 3)"
    by (simp add: bfs_spec_edges Let_def)
  show ?thesis using gen none trav bfs_spec_edges ex by blast
qed

theorem graph_closeness_score_witness:
  "graph_closeness 3 (bfs (build_ADJ spec_edges) 1 2 None) = Inr (1 / 6)
   \<and> graph_closeness 2 (bfs (build_ADJ spec_edges) 1 2 None) = Inr (1 / 2)
   \<and> graph_closeness 7 (bfs (build_ADJ spec_edges) 1 2 None) = Inr 0"
proof -
  let ?rs = "bfs (build_ADJ spec_edges) 1 2 None"
  let ?r2 = "\<lparr>r_id = 2, r_hop = 1, r_edge = Some ''related_to'', r_weight = Some (1::real)\<rparr>"
  note inst = graph_closeness_score [of ?rs "build_ADJ spec_edges" 1 2 None]
  have "?r2 \<in> set ?rs" by (simp add: bfs_spec_edges)
  then have "\<exists>w. r_weight ?r2 = Some w
      \<and> graph_closeness (r_id ?r2) ?rs = Inr (w / real_of_int (1 + r_hop ?r2))"
    using inst by blast
  then have "graph_closeness 2 ?rs = Inr (1 / 2)" by simp
  moreover have "7 \<notin> r_id ` set ?rs" by (simp add: bfs_spec_edges)
  then have "graph_closeness 7 ?rs = Inr 0" using inst by blast
  moreover have "graph_closeness 3 ?rs = Inr (1 / 6)" using inst by simp
  ultimately show ?thesis by simp
qed



text \<open>
  C7 (amended). For \<open>0 \<le> top_k\<close>, any \<^verbatim>\<open>argsort\<close> meeting its contract, and a query embedding
  of the candidates' dimension: vector search returns, without error, exactly
  \<open>min top_k (number of candidates)\<close> entries (the candidates being all nodes or those passing
  the metadata filter), in descending order of score; each is the entry of a candidate with
  its cosine score, no candidate left out scores higher than a returned one, and when
  \<open>top_k\<close> is at least the number of candidates the result is the whole pool. For a negative
  \<open>top_k\<close> the slice \<^verbatim>\<open>[:top_k]\<close> drops entries from the end instead: the counterexample returns
  two entries for \<open>top_k = -1\<close> and three candidates.
\<close>

theorem search_vector_top_k:
  assumes "is_argsort argsort" "0 \<le> top_k"
    and "\<forall>n\<in>set (candidates (load_nodes nodes) mf).
           length (n_embedding n) = length (embed_text query)"
  shows "\<exists>rs. search_vector embed_text argsort (load_nodes nodes) query top_k mf = Inr rs
      \<and> int (length rs) = min top_k (int (length (candidates (load_nodes nodes) mf)))
      \<and> sorted (rev (map v_vector_score rs))
      \<and> mset rs \<subseteq># mset (map (scored (embed_text query)) (candidates (load_nodes nodes) mf))
      \<and> (\<forall>x\<in>#(mset (map (scored (embed_text query)) (candidates (load_nodes nodes) mf)) - mset rs).
            \<forall>r\<in>set rs. v_vector_score x \<le> v_vector_score r)
      \<and> (int (length (candidates (load_nodes nodes) mf)) \<le> top_k
            \<longrightarrow> mset rs = mset (map (scored (embed_text query)) (candidates (load_nodes nodes) mf)))"
proof -
  define cands where "cands = candidates (load_nodes nodes) mf"
  define q where "q = embed_text query"
  define R where "R = ranked argsort cands q"
  define m where "m = nat (min top_k (int (length cands)))"
  define rs where "rs = take m R"
  have k: "0 \<le> min top_k (int (length cands))" using assms(2) by simp
  have lenR: "length R = length cands" unfolding R_def by (rule ranked_length [OF assms(1)])
  have msetR: "mset R = mset (map (scored q) cands)" unfolding R_def by (rule ranked_mset [OF assms(1)])
  have sortedR: "sorted (rev (map v_vector_score R))" unfolding R_def by (rule ranked_sorted [OF assms(1)])
  have "search_vector embed_text argsort (load_nodes nodes) query top_k mf
      = (if cands = [] then Inr [] else Inr (raw_results argsort cands q top_k))"
    using assms(3) unfolding search_vector_eq Let_def cands_def [symmetric] q_def [symmetric]
    by simp
  also have "raw_results argsort cands q top_k = rs"
    unfolding raw_results_ranked [OF assms(1)] py_take_nonneg [OF k] rs_def m_def R_def ..
  also have "(if cands = [] then Inr [] else Inr rs) = Inr rs"
    using lenR by (auto simp: rs_def)
  finally have res: "search_vector embed_text argsort (load_nodes nodes) query top_k mf = Inr rs" .
  have len: "int (length rs) = min top_k (int (length cands))"
    using k lenR by (simp add: rs_def m_def)
  have srt: "sorted (rev (map v_vector_score rs))"
    unfolding rs_def using sortedR by (rule desc_take)
  have split: "mset R = mset rs + mset (drop m R)"
    unfolding rs_def by (metis append_take_drop_id mset_append)
  then have sub: "mset rs \<subseteq># mset (map (scored q) cands)"
    unfolding msetR [symmetric] by simp
  have rest: "mset (map (scored q) cands) - mset rs = mset (drop m R)"
    unfolding msetR [symmetric] split by simp
  have top: "\<forall>x\<in>#(mset (map (scored q) cands) - mset rs). \<forall>r\<in>set rs.
      v_vector_score x \<le> v_vector_score r"
  proof (intro ballI)
    fix x r assume x: "x \<in># mset (map (scored q) cands) - mset rs" and r: "r \<in> set rs"
    from x have "x \<in> set (drop m R)" unfolding rest by simp
    then show "v_vector_score x \<le> v_vector_score r"
      using r unfolding rs_def by (rule desc_take_drop [OF sortedR])
  qed
  have full: "mset rs = mset (map (scored q) cands)" if "int (length cands) \<le> top_k"
  proof -
    have "m = length R" using that lenR by (simp add: m_def)
    then show ?thesis using msetR by (simp add: rs_def)
  qed
  show ?thesis
    unfolding cands_def [symmetric] q_def [symmetric]
    using res len srt sub top full by (intro exI [of _ rs] conjI impI)
qed

theorem search_vector_top_k_witness:
  "\<exists>rs. search_vector (\<lambda>t. [1, 0]) ref_argsort (load_nodes ex_nodes) ''q'' 2 None = Inr rs
     \<and> rs = [\<lparr>v_id = 1, v_name = ''a'', v_vector_score = 1\<rparr>,
             \<lparr>v_id = 2, v_name = ''b'', v_vector_score = 0\<rparr>]
     \<and> int (length rs) = min 2 (int (length ex_nodes))
     \<and> sorted (rev (map v_vector_score rs))"
proof -
  have h2: "(0::int) \<le> 2" by simp
  have h3: "\<forall>n\<in>set (candidates (load_nodes ex_nodes) None).
      length (n_embedding n) = length ((\<lambda>t. [1, 0 :: real]) ''q'')"
    unfolding candidates_ex_nodes using ex_nodes_dims by simp
  from search_vector_top_k [OF is_argsort_ref h2 h3]
  obtain rs where rs: "search_vector (\<lambda>t. [1, 0]) ref_argsort (load_nodes ex_nodes) ''q'' 2 None = Inr rs"
    "int (length rs) = min 2 (int (length (candidates (load_nodes ex_nodes) None)))"
    "sorted (rev (map v_vector_score rs))"
    by blast
  have "rs = [\<lparr>v_id = 1, v_name = ''a'', v_vector_score = 1\<rparr>,
             \<lparr>v_id = 2, v_name = ''b'', v_vector_score = 0\<rparr>]"
    using rs(1) unfolding search_ex_2 by simp
  then show ?thesis using rs unfolding candidates_ex_nodes by (intro exI [of _ rs] conjI)
qed

theorem search_vector_negative_top_k_counterexample:
  "is_argsort ref_argsort
   \<and> search_vector (\<lambda>t. [1, 0]) ref_argsort (load_nodes ex_nodes) ''q'' (- 1) None
       = Inr [\<lparr>v_id = 1, v_name = ''a'', v_vector_score = 1\<rparr>,
              \<lparr>v_id = 2, v_name = ''b'', v_vector_score = 0\<rparr>]
   \<and> int (length [\<lparr>v_id = 1, v_name = ''a'', v_vector_score = 1 :: real\<rparr>,
                   \<lparr>v_id = 2, v_name = ''b'', v_vector_score = 0\<rparr>])
       \<noteq> min (- 1) (int (length (candidates (load_nodes ex_nodes) None)))"
  using is_argsort_ref search_ex_neg by (simp add: candidates_ex_nodes ex_nodes_def)

text \<open>
  C8 (amended). For \<open>0 \<le> top_k\<close>, nodes with unique ids, any \<^verbatim>\<open>argsort\<close> meeting its contract and
  a vector search that returns \<open>vr\<close>: with \<open>alpha = 1\<close> the hybrid search returns the ids of
  \<open>vr\<close> in the same order, each with its vector score as final score; with \<open>alpha = 0\<close> it
  returns the same ids, the final score of each being its graph closeness to the anchor (the
  focus node, or the top vector hit), in descending order of that score, entries of equal
  closeness keeping the order of the vector search. For a negative \<open>top_k\<close> the slice
  \<^verbatim>\<open>[:top_k]\<close> is applied a second time, to the merged list: the counterexample returns one
  entry where the vector search for the same \<open>top_k = -1\<close> returns two.
\<close>

theorem hybrid_alpha_extremes:
  assumes "is_argsort argsort" "0 \<le> top_k" "distinct (map n_id nodes)"
    and "search_vector embed_text argsort (load_nodes nodes) query top_k None = Inr vr"
  shows "(\<exists>hs. hybrid_search embed_text argsort (load_nodes nodes) NODES_h ADJ query top_k
                 focus_id bfs_depth 1 = Inr hs
            \<and> map h_id hs = map v_id vr
            \<and> map h_final_score hs = map v_vector_score vr)
       \<and> (\<exists>hs. hybrid_search embed_text argsort (load_nodes nodes) NODES_h ADJ query top_k
                 focus_id bfs_depth 0 = Inr hs
            \<and> mset (map h_id hs) = mset (map v_id vr)
            \<and> (\<forall>h\<in>set hs. graph_closeness (h_id h) (bfs ADJ (anchor focus_id vr) bfs_depth None)
                             = Inr (h_final_score h))
            \<and> sorted (rev (map h_final_score hs))
            \<and> (\<forall>g. map h_id (filter (\<lambda>h. h_final_score h = g) hs)
                    = map v_id (filter (\<lambda>r. graph_closeness (v_id r)
                                   (bfs ADJ (anchor focus_id vr) bfs_depth None) = Inr g) vr)))"
proof (rule conjI)
  define V where "V = bfs ADJ (anchor focus_id vr) bfs_depth None"
  define L1 where "L1 = map (fused NODES_h V 1) vr"
  have eq1: "hybrid_search embed_text argsort (load_nodes nodes) NODES_h ADJ query top_k
               focus_id bfs_depth 1 = Inr (py_sort_desc h_final_score L1)"
    unfolding L1_def V_def by (rule hybrid_search_eq [OF assms])
  have f1: "map h_final_score L1 = map v_vector_score vr"
    unfolding L1_def by (simp add: fused_fields)
  have "sorted (rev (map h_final_score L1))"
    unfolding f1 by (rule search_vector_props(2) [OF assms])
  then have id1: "py_sort_desc h_final_score L1 = L1" by (rule py_sort_desc_id)
  have i1: "map h_id L1 = map v_id vr" unfolding L1_def by (simp add: fused_fields)
  show "\<exists>hs. hybrid_search embed_text argsort (load_nodes nodes) NODES_h ADJ query top_k
                 focus_id bfs_depth 1 = Inr hs
            \<and> map h_id hs = map v_id vr
            \<and> map h_final_score hs = map v_vector_score vr"
    using eq1 i1 f1 unfolding id1 by (intro exI [of _ L1] conjI)
next
  define V where "V = bfs ADJ (anchor focus_id vr) bfs_depth None"
  define L0 where "L0 = map (fused NODES_h V 0) vr"
  define hs where "hs = py_sort_desc h_final_score L0"
  have gc: "graph_closeness n V = Inr g \<longleftrightarrow> closeness_of n V = g" for n g
    unfolding V_def graph_closeness_bfs by simp
  have eq0: "hybrid_search embed_text argsort (load_nodes nodes) NODES_h ADJ query top_k
               focus_id bfs_depth 0 = Inr hs"
    unfolding hs_def L0_def V_def by (rule hybrid_search_eq [OF assms])
  have ms: "mset hs = mset L0" unfolding hs_def by (rule py_sort_desc_mset)
  have "mset (map h_id hs) = mset (map h_id L0)"
    using ms by (metis mset_map)
  also have "map h_id L0 = map v_id vr" unfolding L0_def by (simp add: fused_fields)
  finally have ids: "mset (map h_id hs) = mset (map v_id vr)" .
  have "set hs = set L0" using ms by (rule mset_eq_setD)
  then have mem: "\<forall>h\<in>set hs. graph_closeness (h_id h) V = Inr (h_final_score h)"
    unfolding L0_def gc by (simp add: fused_fields)
  have srt: "sorted (rev (map h_final_score hs))"
    unfolding hs_def by (rule py_sort_desc_sorted)
  have stable: "map h_id (filter (\<lambda>h. h_final_score h = g) hs)
      = map v_id (filter (\<lambda>r. graph_closeness (v_id r) V = Inr g) vr)" for g
  proof -
    have "filter (\<lambda>h. h_final_score h = g) hs = filter (\<lambda>h. h_final_score h = g) L0"
      unfolding hs_def by (rule py_sort_desc_stable)
    also have "map h_id \<dots> = map v_id (filter (\<lambda>r. closeness_of (v_id r) V = g) vr)"
      unfolding L0_def by (simp add: filter_map comp_def fused_fields)
    finally show ?thesis unfolding gc .
  qed
  show "\<exists>hs. hybrid_search embed_text argsort (load_nodes nodes) NODES_h ADJ query top_k
                 focus_id bfs_depth 0 = Inr hs
            \<and> mset (map h_id hs) = mset (map v_id vr)
            \<and> (\<forall>h\<in>set hs. graph_closeness (h_id h) (bfs ADJ (anchor focus_id vr) bfs_depth None)
                             = Inr (h_final_score h))
            \<and> sorted (rev (map h_final_score hs))
            \<and> (\<forall>g. map h_id (filter (\<lambda>h. h_final_score h = g) hs)
                    = map v_id (filter (\<lambda>r. graph_closeness (v_id r)
                                   (bfs ADJ (anchor focus_id vr) bfs_depth None) = Inr g) vr))"
    unfolding V_def [symmetric]
    using eq0 ids mem srt stable by (intro exI [of _ hs] conjI allI)
qed

theorem hybrid_alpha_extremes_witness:
  "(\<exists>hs. hybrid_search (\<lambda>t. [1, 0]) ref_argsort (load_nodes ex_nodes) ex_nodes
            (build_ADJ spec_edges) ''q'' 2 None 2 1 = Inr hs
          \<and> map h_id hs = [1, 2] \<and> map h_final_score hs = [1, 0])
   \<and> (\<exists>hs. hybrid_search (\<lambda>t. [1, 0]) ref_argsort (load_nodes ex_nodes) ex_nodes
            (build_ADJ spec_edges) ''q'' 2 None 2 0 = Inr hs
          \<and> mset (map h_id hs) = mset [1, 2] \<and> sorted (rev (map h_final_score hs)))"
proof -
  have k: "(0::int) \<le> 2" by simp
  note inst = hybrid_alpha_extremes [OF is_argsort_ref k ex_nodes_ids search_ex_2,
      of ex_nodes "build_ADJ spec_edges" None 2]
  from inst [THEN conjunct1]
  obtain h1 where h1: "hybrid_search (\<lambda>t. [1, 0]) ref_argsort (load_nodes ex_nodes) ex_nodes
        (build_ADJ spec_edges) ''q'' 2 None 2 1 = Inr h1"
      "map h_id h1 = [1, 2]" "map h_final_score h1 = [1, 0]"
    by auto
  from inst [THEN conjunct2]
  obtain h0 where h0: "hybrid_search (\<lambda>t. [1, 0]) ref_argsort (load_nodes ex_nodes) ex_nodes
        (build_ADJ spec_edges) ''q'' 2 None 2 0 = Inr h0"
      "mset (map h_id h0) = mset [1, 2]" "sorted (rev (map h_final_score h0))"
    by auto
  show ?thesis using h1 h0 by (intro conjI exI [of _ h1] exI [of _ h0])
qed

theorem hybrid_negative_top_k_counterexample:
  "is_argsort ref_argsort
   \<and> distinct (map n_id ex_nodes)
   \<and> search_vector (\<lambda>t. [1, 0]) ref_argsort (load_nodes ex_nodes) ''q'' (- 1) None
       = Inr [\<lparr>v_id = 1, v_name = ''a'', v_vector_score = 1\<rparr>,
              \<lparr>v_id = 2, v_name = ''b'', v_vector_score = 0\<rparr>]
   \<and> hybrid_search (\<lambda>t. [1, 0]) ref_argsort (load_nodes ex_nodes) ex_nodes
        (build_ADJ spec_edges) ''q'' (- 1) None 2 1
       = Inr [\<lparr>h_id = 1, h_name = Some ''a'', h_text = Some ''ta'', h_vector_score = 1,
               h_graph_score = 0, h_final_score = 1, h_hop = None\<rparr>]"
  using is_argsort_ref ex_nodes_ids search_ex_neg hybrid_ex_neg by (intro conjI)

text \<open>
  C9 (amended). Index construction surfaces neither structural error. The adjacency is built
  from the edge list alone: every edge, whether or not its endpoints are nodes, makes both
  endpoints keys of the adjacency and contributes its forward and backward entry. With
  embeddings of different dimensions (NumPy raising on the ragged list), the module-level
  \<^verbatim>\<open>except\<close> replaces the index by the empty one, and every later vector search returns the
  empty list; with uniform dimensions the index holds all nodes. The counterexample shows
  an edge to the missing node 99 accepted and a ragged node list loaded as the empty index.
\<close>

theorem construction_accepts_structural_errors:
  "(\<forall>e\<in>set EDGES.
      e_source e \<in> fst ` set (build_ADJ EDGES) \<and> e_target e \<in> fst ` set (build_ADJ EDGES)
    \<and> \<lparr>a_target = e_target e, a_type = rel_of e, a_weight = wt_of e\<rparr>
         \<in> set (adj_get (build_ADJ EDGES) (e_source e))
    \<and> \<lparr>a_target = e_source e, a_type = rel_of e, a_weight = wt_of e\<rparr>
         \<in> set (adj_get (build_ADJ EDGES) (e_target e)))
   \<and> (\<not> uniform_dims nodes
        \<longrightarrow> load_nodes nodes = \<lparr>NODES = [], EMB_ARRAY = [], NODE_IDS = []\<rparr>
          \<and> search_vector embed_text argsort (load_nodes nodes) q k mf = Inr [])
   \<and> (uniform_dims nodes
        \<longrightarrow> load_nodes nodes
            = \<lparr>NODES = nodes, EMB_ARRAY = map n_embedding nodes, NODE_IDS = map n_id nodes\<rparr>)"
proof (intro conjI ballI impI)
  fix e assume e: "e \<in> set EDGES"
  show "e_source e \<in> fst ` set (build_ADJ EDGES)" "e_target e \<in> fst ` set (build_ADJ EDGES)"
    using e by (simp_all add: keys_build_ADJ)
  show "\<lparr>a_target = e_target e, a_type = rel_of e, a_weight = wt_of e\<rparr>
         \<in> set (adj_get (build_ADJ EDGES) (e_source e))"
    unfolding adj_get_build_ADJ using e by (auto simp: entries_at_def intro!: bexI [of _ e])
  show "\<lparr>a_target = e_source e, a_type = rel_of e, a_weight = wt_of e\<rparr>
         \<in> set (adj_get (build_ADJ EDGES) (e_target e))"
    unfolding adj_get_build_ADJ using e by (auto simp: entries_at_def intro!: bexI [of _ e])
next
  assume bad: "\<not> uniform_dims nodes"
  then show l: "load_nodes nodes = \<lparr>NODES = [], EMB_ARRAY = [], NODE_IDS = []\<rparr>"
    by (simp add: load_nodes_eq)
  show "search_vector embed_text argsort (load_nodes nodes) q k mf = Inr []"
    unfolding l by (rule search_vector_empty_index)
next
  assume "uniform_dims nodes"
  then show "load_nodes nodes
      = \<lparr>NODES = nodes, EMB_ARRAY = map n_embedding nodes, NODE_IDS = map n_id nodes\<rparr>"
    by (simp add: load_nodes_eq)
qed

theorem construction_accepts_structural_errors_witness:
  "99 \<in> fst ` set (build_ADJ [dangling_edge])
   \<and> \<lparr>a_target = 99, a_type = ''related_to'', a_weight = 1\<rparr>
        \<in> set (adj_get (build_ADJ [dangling_edge]) 1)
   \<and> load_nodes ragged_nodes = \<lparr>NODES = [], EMB_ARRAY = [], NODE_IDS = []\<rparr>
   \<and> search_vector (\<lambda>t. [1, 0]) (\<lambda>xs. []) (load_nodes ragged_nodes) ''q'' 5 None = Inr []
   \<and> load_nodes ex_nodes
       = \<lparr>NODES = ex_nodes, EMB_ARRAY = map n_embedding ex_nodes, NODE_IDS = map n_id ex_nodes\<rparr>"
proof -
  have bad: "\<not> uniform_dims ragged_nodes"
    by (simp add: uniform_dims_def ragged_nodes_def)
  have len: "\<forall>n\<in>set ex_nodes. length (n_embedding n) = 2" by (simp add: ex_nodes_def)
  have good: "uniform_dims ex_nodes"
    unfolding uniform_dims_def using len by simp
  note r = construction_accepts_structural_errors
            [of "[dangling_edge]" ragged_nodes "\<lambda>t. [1, 0]" "\<lambda>xs. []" "''q''" 5 None]
  note g = construction_accepts_structural_errors
            [of "[dangling_edge]" ex_nodes "\<lambda>t. [1, 0]" "\<lambda>xs. []" "''q''" 5 None]
  have e: "dangling_edge \<in> set [dangling_edge]" by simp
  note r1 = r [THEN conjunct1, rule_format, OF e]
  have 1: "99 \<in> fst ` set (build_ADJ [dangling_edge])"
    using r1 [THEN conjunct2, THEN conjunct1] by (simp add: dangling_edge_def)
  have 2: "\<lparr>a_target = 99, a_type = ''related_to'', a_weight = 1\<rparr>
        \<in> set (adj_get (build_ADJ [dangling_edge]) 1)"
    using r1 [THEN conjunct2, THEN conjunct2, THEN conjunct1]
    by (simp add: dangling_edge_def rel_of_def wt_of_def)
  note r2 = r [THEN conjunct2, THEN conjunct1, THEN mp, OF bad]
  note g3 = g [THEN conjunct2, THEN conjunct2, THEN mp, OF good]
  show ?thesis using 1 2 r2 [THEN conjunct1] r2 [THEN conjunct2] g3 by (intro conjI)
qed

theorem construction_masks_errors_counterexample:
  "e_target dangling_edge \<notin> n_id ` set ex_nodes
   \<and> build_ADJ [dangling_edge]
       = [(1, [\<lparr>a_target = 99, a_type = ''related_to'', a_weight = 1\<rparr>]),
          (99, [\<lparr>a_target = 1, a_type = ''related_to'', a_weight = 1\<rparr>])]
   \<and> length (n_embedding (ragged_nodes ! 0)) \<noteq> length (n_embedding (ragged_nodes ! 1))
   \<and> load_nodes ragged_nodes = \<lparr>NODES = [], EMB_ARRAY = [], NODE_IDS = []\<rparr>"
  by (simp add: dangling_edge_def ex_nodes_def ragged_nodes_def build_ADJ_def add_edge_def
      Let_def load_nodes_eq uniform_dims_def)

text \<open>
  C10 (amended). For \<open>0 \<le> top_k\<close>, nodes with unique ids, any \<^verbatim>\<open>argsort\<close> meeting its contract
  and a vector search that returns \<open>vr\<close>: the hybrid search with a focus node that is no key
  of the adjacency returns without error the candidates of \<open>vr\<close> with their vector scores,
  each with graph score \<open>0\<close>, hop \<^verbatim>\<open>None\<close> and final score \<open>alpha * vector_score\<close>. For a
  negative \<open>top_k\<close> the second slice drops candidates: the counterexample, with focus node 99
  and \<open>top_k = -1\<close>, returns one entry where the vector search returns two.
\<close>

theorem hybrid_unknown_focus:
  assumes "is_argsort argsort" "0 \<le> top_k" "distinct (map n_id nodes)"
    and "search_vector embed_text argsort (load_nodes nodes) query top_k None = Inr vr"
    and "f \<notin> fst ` set ADJ"
  shows "\<exists>hs. hybrid_search embed_text argsort (load_nodes nodes) NODES_h ADJ query top_k
                (Some f) bfs_depth alpha = Inr hs
          \<and> mset (map (\<lambda>h. (h_id h, h_vector_score h)) hs)
              = mset (map (\<lambda>r. (v_id r, v_vector_score r)) vr)
          \<and> (\<forall>h\<in>set hs. h_graph_score h = 0 \<and> h_hop h = None
                          \<and> h_final_score h = alpha * h_vector_score h)"
proof -
  define L where "L = map (fused NODES_h [] alpha) vr"
  define hs where "hs = py_sort_desc h_final_score L"
  have V: "bfs ADJ (anchor (Some f) vr) bfs_depth None = []"
    unfolding anchor_def using assms(5) by (simp add: bfs_unknown_start)
  have eq: "hybrid_search embed_text argsort (load_nodes nodes) NODES_h ADJ query top_k
              (Some f) bfs_depth alpha = Inr hs"
    unfolding hs_def L_def V [symmetric] by (rule hybrid_search_eq [OF assms(1-4)])
  have ms: "mset hs = mset L" unfolding hs_def by (rule py_sort_desc_mset)
  have "mset (map (\<lambda>h. (h_id h, h_vector_score h)) hs)
      = mset (map (\<lambda>h. (h_id h, h_vector_score h)) L)"
    using ms by (metis mset_map)
  also have "map (\<lambda>h. (h_id h, h_vector_score h)) L = map (\<lambda>r. (v_id r, v_vector_score r)) vr"
    unfolding L_def by (simp add: fused_fields)
  finally have cands: "mset (map (\<lambda>h. (h_id h, h_vector_score h)) hs)
      = mset (map (\<lambda>r. (v_id r, v_vector_score r)) vr)" .
  have "set hs = set L" using ms by (rule mset_eq_setD)
  then have zero: "\<forall>h\<in>set hs. h_graph_score h = 0 \<and> h_hop h = None
      \<and> h_final_score h = alpha * h_vector_score h"
    unfolding L_def by (simp add: fused_fields closeness_of_def)
  show ?thesis using eq cands zero by (intro exI [of _ hs] conjI)
qed

theorem hybrid_unknown_focus_witness:
  "\<exists>hs. hybrid_search (\<lambda>t. [1, 0]) ref_argsort (load_nodes ex_nodes) ex_nodes
           (build_ADJ spec_edges) ''q'' 2 (Some 99) 2 (7 / 10) = Inr hs
      \<and> mset (map (\<lambda>h. (h_id h, h_vector_score h)) hs) = mset [(1, 1), (2, 0)]
      \<and> map h_graph_score hs = map (\<lambda>h. 0) hs
      \<and> map h_hop hs = map (\<lambda>h. None) hs
      \<and> map h_final_score hs = map (\<lambda>h. 7 / 10 * h_vector_score h) hs"
proof -
  have k: "(0::int) \<le> 2" by simp
  from hybrid_unknown_focus [OF is_argsort_ref k ex_nodes_ids search_ex_2 adj_spec_edges_no_99,
      of ex_nodes 2 "7 / 10"]
  obtain hs where hs: "hybrid_search (\<lambda>t. [1, 0]) ref_argsort (load_nodes ex_nodes) ex_nodes
        (build_ADJ spec_edges) ''q'' 2 (Some 99) 2 (7 / 10) = Inr hs"
      "mset (map (\<lambda>h. (h_id h, h_vector_score h)) hs) = mset [(1, 1), (2, 0)]"
      "\<forall>h\<in>set hs. h_graph_score h = 0 \<and> h_hop h = None
         \<and> h_final_score h = 7 / 10 * h_vector_score h"
    by auto
  have g: "map h_graph_score hs = map (\<lambda>h. 0) hs" using hs(3) by simp
  have h: "map h_hop hs = map (\<lambda>h. None) hs" using hs(3) by simp
  have f: "map h_final_score hs = map (\<lambda>h. 7 / 10 * h_vector_score h) hs" using hs(3) by simp
  show ?thesis using hs(1,2) g h f by (intro exI [of _ hs] conjI)
qed

theorem hybrid_unknown_focus_negative_top_k_counterexample:
  "is_argsort ref_argsort
   \<and> distinct (map n_id ex_nodes)
   \<and> map_of (build_ADJ spec_edges) 99 = None
   \<and> search_vector (\<lambda>t. [1, 0]) ref_argsort (load_nodes ex_nodes) ''q'' (- 1) None
       = Inr [\<lparr>v_id = 1, v_name = ''a'', v_vector_score = 1\<rparr>,
              \<lparr>v_id = 2, v_name = ''b'', v_vector_score = 0\<rparr>]
   \<and> hybrid_search (\<lambda>t. [1, 0]) ref_argsort (load_nodes ex_nodes) ex_nodes
        (build_ADJ spec_edges) ''q'' (- 1) (Some 99) 2 (7 / 10)
       = Inr [\<lparr>h_id = 1, h_name = Some ''a'', h_text = Some ''ta'', h_vector_score = 1,
               h_graph_score = 0, h_final_score = 7 / 10, h_hop = None\<rparr>]"
  using is_argsort_ref ex_nodes_ids adj_spec_edges_99 search_ex_neg hybrid_ex_neg_focus
  by (intro conjI)

end
